theory Spec2Isabelle
  imports Complex_Main
begin

section \<open>Values\<close>

text \<open>
  The scheduling core is \<^verbatim>\<open>lib/dependencies.ts\<close>. A JavaScript \<^verbatim>\<open>number\<close> that can be
  written in a JSON text is a finite value; it is modelled as a rational, so that task
  identifiers such as \<open>1\<close> and non-integers such as \<open>1.5\<close> both exist (a literal that
  overflows to \<^verbatim>\<open>Infinity\<close> is outside the model). A duration is a whole number of hours,
  as the column \<^verbatim>\<open>duration Int?\<close> of the schema has it. A \<^verbatim>\<open>Date\<close> is modelled by its
  time value, a whole number of milliseconds since the epoch; the model covers time
  values inside the range of \<^verbatim>\<open>Date\<close>, where the arithmetic of the source is exact.
\<close>

type_synonym number = rat

datatype json =
    JNull
  | JBool bool
  | JNumber number
  | JString string
  | JArray "json list"
  | JObject "(string \<times> json) list"

datatype error = SyntaxError | TypeError

text \<open>The result of the \<^verbatim>\<open>typeof\<close> operator on a value produced by \<^verbatim>\<open>JSON.parse\<close>.\<close>

fun typeof :: "json \<Rightarrow> string" where
  "typeof JNull = ''object''"
| "typeof (JBool b) = ''boolean''"
| "typeof (JNumber n) = ''number''"
| "typeof (JString s) = ''string''"
| "typeof (JArray xs) = ''object''"
| "typeof (JObject kvs) = ''object''"

text \<open>
  The elements kept by \<^verbatim>\<open>filter(id => typeof id === 'number')\<close> are read at the
  type \<^verbatim>\<open>number[]\<close>.
\<close>

fun as_numbers :: "json list \<Rightarrow> number list" where
  "as_numbers [] = []"
| "as_numbers (JNumber n # xs) = n # as_numbers xs"
| "as_numbers (x # xs) = as_numbers xs"

text \<open>\<^verbatim>\<open>Number.isInteger\<close>: the number has no fractional part.\<close>

definition isInteger :: "number \<Rightarrow> bool" where
  "isInteger n = (rat_of_int \<lfloor>n\<rfloor> = n)"

section \<open>The dependency parser\<close>

text \<open>
  \<^verbatim>\<open>JSON.parse\<close> belongs to the platform, not to this repository: the definitions take
  it as the parameter \<open>parse\<close>, which returns the parsed value or the \<^verbatim>\<open>SyntaxError\<close>
  it throws. The optional string is \<open>None\<close> for \<^verbatim>\<open>null\<close> and \<^verbatim>\<open>undefined\<close>.
\<close>

definition parseDependencies :: "(string \<Rightarrow> error + json) \<Rightarrow> string option \<Rightarrow> number list" where
  "parseDependencies parse dependencies =
     (case dependencies of
        None \<Rightarrow> []
      | Some s \<Rightarrow>
          if s = [] then []
          else (case parse s of
                  Inl e \<Rightarrow> []
                | Inr parsed \<Rightarrow>
                    (case parsed of
                       JArray elems \<Rightarrow> as_numbers (filter (\<lambda>id. typeof id = ''number'') elems)
                     | _ \<Rightarrow> [])))"

text \<open>\<^verbatim>\<open>todo.dependencies || null\<close>: the empty string is falsy.\<close>

definition or_null :: "string option \<Rightarrow> string option" where
  "or_null dependencies =
     (case dependencies of None \<Rightarrow> None | Some s \<Rightarrow> if s = [] then None else Some s)"

text \<open>
  The value of \<^verbatim>\<open>JSON.parse\<close> on the texts that the examples of this theory use.
  Every other text is answered with \<^verbatim>\<open>SyntaxError\<close>, which is right for the text
  \<^verbatim>\<open>not-json\<close> and is not meant to describe \<^verbatim>\<open>JSON.parse\<close> beyond the listed texts.
\<close>

definition parse_examples :: "string \<Rightarrow> error + json" where
  "parse_examples s =
     (if s = ''[]'' then Inr (JArray [])
      else if s = ''[1]'' then Inr (JArray [JNumber 1])
      else if s = ''[2]'' then Inr (JArray [JNumber 2])
      else if s = ''[-1]'' then Inr (JArray [JNumber (- 1)])
      else if s = ''[1,2]'' then Inr (JArray [JNumber 1, JNumber 2])
      else if s = ''[1.5,null,2]'' then Inr (JArray [JNumber (3 / 2), JNull, JNumber 2])
      else if s = ''{}'' then Inr (JObject [])
      else Inl SyntaxError)"


section \<open>Tasks\<close>

text \<open>
  The record \<^verbatim>\<open>TodoWithDependencies\<close>: the fields of the \<^verbatim>\<open>Todo\<close> model of the
  database schema. An absent optional field is \<open>None\<close>.
\<close>

record Todo =
  id' :: number
  title :: string
  createdAt :: int
  dueDate :: "int option"
  imageUrl :: "string option"
  dependencies :: "string option"
  duration :: "int option"

record TodoWithCalculations = Todo +
  dependsOn :: "number list"
  earliestStart :: "int option"
  isOnCriticalPath :: bool

section \<open>Maps with insertion order\<close>

text \<open>
  A JavaScript \<^verbatim>\<open>Map\<close> iterates in insertion order, and \<^verbatim>\<open>set\<close> on a present key
  replaces the value in place: an association list with one entry per key.
\<close>

abbreviation Map_get :: "('k \<times> 'v) list \<Rightarrow> 'k \<Rightarrow> 'v option" where
  "Map_get m k \<equiv> map_of m k"

fun Map_set :: "('k \<times> 'v) list \<Rightarrow> 'k \<Rightarrow> 'v \<Rightarrow> ('k \<times> 'v) list" where
  "Map_set [] k v = [(k, v)]"
| "Map_set ((k', v') # m) k v = (if k' = k then (k, v) # m else (k', v') # Map_set m k v)"

definition Map_has :: "('k \<times> 'v) list \<Rightarrow> 'k \<Rightarrow> bool" where
  "Map_has m k = (k \<in> set (map fst m))"

abbreviation Map_keys :: "('k \<times> 'v) list \<Rightarrow> 'k list" where
  "Map_keys m \<equiv> map fst m"

section \<open>The cycle detector\<close>

record NewTodo =
  newTodo_id :: "number option"
  newTodo_dependencies :: "number list"

record dfs =
  visited :: "number set"
  recursionStack :: "number set"

text \<open>
  The inner function \<^verbatim>\<open>hasCycle\<close> and its loop over the dependencies of a node. The
  early \<^verbatim>\<open>return true\<close> leaves the node on the recursion stack.
\<close>

function hasCycle :: "(number \<times> number list) list \<Rightarrow> number \<Rightarrow> dfs \<Rightarrow> bool \<times> dfs"
  and hasCycle_for :: "(number \<times> number list) list \<Rightarrow> number list \<Rightarrow> dfs \<Rightarrow> bool \<times> dfs" where
  "hasCycle graph nodeId st =
     (if nodeId \<in> recursionStack st then (True, st)
      else if nodeId \<in> visited st then (False, st)
      else (case hasCycle_for graph
                   (case Map_get graph nodeId of Some ds \<Rightarrow> ds | None \<Rightarrow> [])
                   (st\<lparr>visited := insert nodeId (visited st),
                       recursionStack := insert nodeId (recursionStack st)\<rparr>) of
              (True, st') \<Rightarrow> (True, st')
            | (False, st') \<Rightarrow> (False, st'\<lparr>recursionStack := recursionStack st' - {nodeId}\<rparr>)))"
| "hasCycle_for graph [] st = (False, st)"
| "hasCycle_for graph (depId # deps) st =
     (case hasCycle graph depId st of
        (True, st') \<Rightarrow> (True, st')
      | (False, st') \<Rightarrow> hasCycle_for graph deps st')"
  by pat_completeness auto


lemma hasCycle_visited_mono:
  "hasCycle_hasCycle_for_dom (Inl (graph, nodeId, st)) \<Longrightarrow>
     visited st \<subseteq> visited (snd (hasCycle graph nodeId st))"
  "hasCycle_hasCycle_for_dom (Inr (graph, deps, st)) \<Longrightarrow>
     visited st \<subseteq> visited (snd (hasCycle_for graph deps st))"
proof (induction graph nodeId st and graph deps st rule: hasCycle_hasCycle_for.pinduct)
  case (1 graph nodeId st)
  then show ?case
    by (auto simp: hasCycle.psimps split: prod.splits bool.splits if_splits)
next
  case (2 graph st)
  then show ?case by (simp add: hasCycle_for.psimps)
next
  case (3 graph depId deps st)
  obtain b st' where r: "hasCycle graph depId st = (b, st')"
    by (cases "hasCycle graph depId st")
  show ?case
  proof (cases b)
    case True
    with 3 r show ?thesis by (simp add: hasCycle_for.psimps)
  next
    case False
    with 3(2) r have a: "visited st \<subseteq> visited st'" by simp
    from 3(3) r False have "visited st' \<subseteq> visited (snd (hasCycle_for graph deps st'))"
      by simp
    with a 3(1) r False show ?thesis by (simp add: hasCycle_for.psimps)
  qed
qed

termination hasCycle
proof (relation
    "(\<lambda>x. case x of Inl (g, n, st) \<Rightarrow> card (set (Map_keys g) - visited st)
                    | Inr (g, ds, st) \<Rightarrow> card (set (Map_keys g) - visited st))
     <*mlex*> measure (\<lambda>x. case x of Inl (g, n, st) \<Rightarrow> 1 | Inr (g, ds, st) \<Rightarrow> 2 * length ds)",
    goal_cases)
  case 1
  show ?case by (simp add: wf_mlex)
next
  case (2 graph nodeId st)
  show ?case
  proof (cases "Map_get graph nodeId")
    case None
    then have "nodeId \<notin> set (Map_keys graph)" by (simp add: map_of_eq_None_iff)
    then have "set (Map_keys graph) - insert nodeId (visited st) = set (Map_keys graph) - visited st"
      by auto
    with None show ?thesis by (auto intro!: mlex_leq)
  next
    case (Some ds)
    then have "nodeId \<in> set (Map_keys graph)"
      by (metis map_of_eq_None_iff option.distinct(1) set_map)
    with 2 have "set (Map_keys graph) - insert nodeId (visited st) \<subset> set (Map_keys graph) - visited st"
      by auto
    then have "card (set (Map_keys graph) - insert nodeId (visited st))
        < card (set (Map_keys graph) - visited st)"
      by (intro psubset_card_mono) auto
    then show ?thesis by (auto intro!: mlex_less)
  qed
next
  case (3 graph depId deps st)
  show ?case by (auto intro!: mlex_leq)
next
  case (4 graph depId deps st x y)
  then have "visited st \<subseteq> visited y"
    using hasCycle_visited_mono(1)[of graph depId st] by (metis snd_conv)
  then have "card (set (Map_keys graph) - visited y) \<le> card (set (Map_keys graph) - visited st)"
    by (intro card_mono) auto
  then show ?case by (auto intro!: mlex_leq)
qed

text \<open>
  \<^verbatim>\<open>hasCircularDependency\<close>. The graph is built from the parsed dependencies of every
  task, then the candidate is added when it has an identifier. The last loop calls
  \<^verbatim>\<open>hasCycle\<close> for every key inside a \<^verbatim>\<open>forEach\<close> callback: the callback's
  \<^verbatim>\<open>return true\<close> ends the callback only, \<^verbatim>\<open>forEach\<close> drops the value, and the
  function goes on to its final \<^verbatim>\<open>return false\<close>.
\<close>

definition buildGraph :: "(string \<Rightarrow> error + json) \<Rightarrow> Todo list \<Rightarrow> NewTodo \<Rightarrow> (number \<times> number list) list" where
  "buildGraph parse todos newTodo =
     (let graph = fold (\<lambda>todo graph.
                     Map_set graph (id' todo) (parseDependencies parse (or_null (dependencies todo))))
                   todos []
      in case newTodo_id newTodo of
           None \<Rightarrow> graph
         | Some i \<Rightarrow> Map_set graph i (newTodo_dependencies newTodo))"

definition hasCircularDependency :: "(string \<Rightarrow> error + json) \<Rightarrow> Todo list \<Rightarrow> NewTodo \<Rightarrow> bool" where
  "hasCircularDependency parse todos newTodo =
     (let graph = buildGraph parse todos newTodo;
          st = fold (\<lambda>nodeId st. snd (hasCycle graph nodeId st)) (Map_keys graph)
                 \<lparr>visited = {}, recursionStack = {}\<rparr>
      in False)"

section \<open>The topological orderer\<close>

text \<open>The two \<^verbatim>\<open>forEach\<close> loops that fill \<^verbatim>\<open>graph\<close> and \<^verbatim>\<open>inDegree\<close>.\<close>

definition initialize :: "Todo list \<Rightarrow> (number \<times> number list) list \<times> (number \<times> int) list" where
  "initialize todos =
     fold (\<lambda>todo (graph, inDegree). (Map_set graph (id' todo) [], Map_set inDegree (id' todo) 0))
       todos ([], [])"

definition addEdge ::
  "number \<Rightarrow> number \<Rightarrow> (number \<times> number list) list \<times> (number \<times> int) list
     \<Rightarrow> (number \<times> number list) list \<times> (number \<times> int) list" where
  "addEdge todoId depId = (\<lambda>(graph, inDegree).
     if Map_has graph depId then
       (case Map_get graph depId of
          Some dependents \<Rightarrow>
            (Map_set graph depId (dependents @ [todoId]),
             Map_set inDegree todoId ((case Map_get inDegree todoId of None \<Rightarrow> 0 | Some d \<Rightarrow> d) + 1))
        | None \<Rightarrow> (graph, inDegree))
     else (graph, inDegree))"

definition buildEdges ::
  "(string \<Rightarrow> error + json) \<Rightarrow> Todo list
     \<Rightarrow> (number \<times> number list) list \<times> (number \<times> int) list
     \<Rightarrow> (number \<times> number list) list \<times> (number \<times> int) list" where
  "buildEdges parse todos =
     fold (\<lambda>todo. fold (addEdge (id' todo)) (parseDependencies parse (or_null (dependencies todo))))
       todos"

text \<open>
  The loop over the neighbours of the node taken from the queue. A neighbour without an
  in-degree entry would get the in-degree \<^verbatim>\<open>NaN\<close>, which is never \<open>0\<close>: it is never
  queued, and the map is not read for it in any other way.
\<close>

fun visitNeighbors ::
  "number list \<Rightarrow> (number \<times> int) list \<times> number list \<Rightarrow> (number \<times> int) list \<times> number list" where
  "visitNeighbors [] (inDegree, queue) = (inDegree, queue)"
| "visitNeighbors (neighbor # neighbors) (inDegree, queue) =
     (case Map_get inDegree neighbor of
        None \<Rightarrow> visitNeighbors neighbors (inDegree, queue)
      | Some d \<Rightarrow>
          if d - 1 = 0
          then visitNeighbors neighbors (Map_set inDegree neighbor (d - 1), queue @ [neighbor])
          else visitNeighbors neighbors (Map_set inDegree neighbor (d - 1), queue))"

definition positive :: "(number \<times> int) list \<Rightarrow> nat" where
  "positive inDegree = length (filter (\<lambda>e. 1 \<le> snd e) inDegree)"

lemma positive_Map_set:
  "Map_get inDegree k = Some d \<Longrightarrow>
     positive (Map_set inDegree k (d - 1)) + (if d = 1 then 1 else 0) = positive inDegree"
  by (induction inDegree) (auto simp: positive_def)

lemma visitNeighbors_measure:
  "visitNeighbors ns (inDegree, queue) = (inDegree', queue') \<Longrightarrow>
     2 * positive inDegree' + length queue' \<le> 2 * positive inDegree + length queue"
proof (induction ns arbitrary: inDegree queue)
  case Nil
  then show ?case by simp
next
  case (Cons n ns)
  show ?case
  proof (cases "Map_get inDegree n")
    case None
    with Cons show ?thesis by simp
  next
    case (Some d)
    from positive_Map_set[OF Some]
    have p: "positive (Map_set inDegree n (d - 1)) + (if d = 1 then 1 else 0) = positive inDegree" .
    show ?thesis
    proof (cases "d = 1")
      case True
      with Cons.prems Some
      have "visitNeighbors ns (Map_set inDegree n (d - 1), queue @ [n]) = (inDegree', queue')"
        by simp
      from Cons.IH[OF this] p True show ?thesis by simp
    next
      case False
      with Cons.prems Some
      have "visitNeighbors ns (Map_set inDegree n (d - 1), queue) = (inDegree', queue')"
        by simp
      from Cons.IH[OF this] p False show ?thesis by simp
    qed
  qed
qed

text \<open>Kahn's algorithm: the \<^verbatim>\<open>while (queue.length > 0)\<close> loop.\<close>

function kahn ::
  "(number \<times> number list) list \<Rightarrow> number list \<times> (number \<times> int) list \<times> number list \<Rightarrow> number list" where
  "kahn graph ([], inDegree, result) = result"
| "kahn graph (current # queue, inDegree, result) =
     (case visitNeighbors (case Map_get graph current of Some ns \<Rightarrow> ns | None \<Rightarrow> [])
             (inDegree, queue) of
        (inDegree', queue') \<Rightarrow> kahn graph (queue', inDegree', result @ [current]))"
  by pat_completeness auto
termination
proof (relation "measure (\<lambda>(graph, queue, inDegree, result). 2 * positive inDegree + length queue)",
    goal_cases)
  case 1
  show ?case by simp
next
  case (2 graph current queue inDegree result x1 x2)
  then have "visitNeighbors (case Map_get graph current of Some ns \<Rightarrow> ns | None \<Rightarrow> [])
      (inDegree, queue) = (x1, x2)"
    by simp
  from visitNeighbors_measure[OF this] show ?case by simp
qed

definition topologicalSort :: "(string \<Rightarrow> error + json) \<Rightarrow> Todo list \<Rightarrow> number list" where
  "topologicalSort parse todos =
     (case buildEdges parse todos (initialize todos) of
        (graph, inDegree) \<Rightarrow>
          kahn graph (map fst (filter (\<lambda>(nodeId, degree). degree = 0) inDegree), inDegree, []))"


section \<open>The schedule calculator\<close>

text \<open>
  \<^verbatim>\<open>new Date()\<close> reads the clock. The clock is the parameter \<open>clock\<close>: \<open>clock n\<close> is
  the time value that the \<open>n\<close>-th reading of one invocation returns (counted from \<open>0\<close>).
  The state of the loop over \<^verbatim>\<open>sortedIds\<close> is the number of readings taken so far and the
  two maps \<^verbatim>\<open>earliestStart\<close> and \<^verbatim>\<open>completionTime\<close>.
\<close>

text \<open>The loop over the dependencies of one task, from \<^verbatim>\<open>maxCompletionTime = new Date()\<close>.\<close>

fun maxCompletion :: "(number \<times> int) list \<Rightarrow> number list \<Rightarrow> int \<Rightarrow> int" where
  "maxCompletion completionTime [] maxCompletionTime = maxCompletionTime"
| "maxCompletion completionTime (depId # deps) maxCompletionTime =
     (case Map_get completionTime depId of
        Some depCompletionTime \<Rightarrow>
          if depCompletionTime > maxCompletionTime
          then maxCompletion completionTime deps depCompletionTime
          else maxCompletion completionTime deps maxCompletionTime
      | None \<Rightarrow> maxCompletion completionTime deps maxCompletionTime)"

text \<open>\<^verbatim>\<open>todo.duration || 1\<close>: an absent duration and the duration \<open>0\<close> are falsy.\<close>

definition duration_or_1 :: "int option \<Rightarrow> int" where
  "duration_or_1 d = (case d of None \<Rightarrow> 1 | Some h \<Rightarrow> if h = 0 then 1 else h)"

text \<open>
  One round of the loop. \<^verbatim>\<open>todoMap.get(todoId)!\<close> is read at once
  (\<^verbatim>\<open>todo.dependencies\<close>), which throws a \<^verbatim>\<open>TypeError\<close> on a missing key. The time
  values are integers: the sum is the time value of the \<^verbatim>\<open>Date\<close> that the source builds for
  as long as it is at most \<open>8640000000000000\<close> in absolute value, and beyond that the
  source holds an invalid \<^verbatim>\<open>Date\<close>. The predicate \<open>timesInRange\<close> below states that a run
  stays in that range; the results on the computed timestamps assume it.
\<close>

fun scheduleLoop ::
  "(nat \<Rightarrow> int) \<Rightarrow> (string \<Rightarrow> error + json) \<Rightarrow> (number \<times> Todo) list \<Rightarrow> number list
     \<Rightarrow> nat \<times> (number \<times> int) list \<times> (number \<times> int) list
     \<Rightarrow> error + (nat \<times> (number \<times> int) list \<times> (number \<times> int) list)" where
  "scheduleLoop clock parse todoMap [] st = Inr st"
| "scheduleLoop clock parse todoMap (todoId # sortedIds) (n, earliestStartMap, completionTime) =
     (case Map_get todoMap todoId of
        None \<Rightarrow> Inl TypeError
      | Some todo \<Rightarrow>
          (let deps = parseDependencies parse (or_null (dependencies todo));
               maxCompletionTime = maxCompletion completionTime deps (clock n);
               completion = maxCompletionTime + duration_or_1 (duration todo) * 60 * 60 * 1000
           in scheduleLoop clock parse todoMap sortedIds
                (Suc n, Map_set earliestStartMap todoId maxCompletionTime,
                 Map_set completionTime todoId completion)))"

definition todoMap_of :: "Todo list \<Rightarrow> (number \<times> Todo) list" where
  "todoMap_of todos = fold (\<lambda>todo m. Map_set m (id' todo) todo) todos []"

definition scheduleTimes ::
  "(nat \<Rightarrow> int) \<Rightarrow> (string \<Rightarrow> error + json) \<Rightarrow> Todo list
     \<Rightarrow> error + (nat \<times> (number \<times> int) list \<times> (number \<times> int) list)" where
  "scheduleTimes clock parse todos =
     scheduleLoop clock parse (todoMap_of todos) (topologicalSort parse todos) (0, [], [])"

subsection \<open>The critical path\<close>

text \<open>The task with the latest completion time, from \<^verbatim>\<open>new Date(0)\<close> and \<open>-1\<close>.\<close>

definition findEndTask :: "(number \<times> int) list \<Rightarrow> int \<times> number" where
  "findEndTask completionTime =
     fold (\<lambda>(todoId, time) (latestCompletion, endTask).
             if time > latestCompletion then (time, todoId) else (latestCompletion, endTask))
       completionTime (0, - 1)"

text \<open>
  The loop of \<^verbatim>\<open>tracePath\<close> over the dependencies of the current task, from
  \<^verbatim>\<open>criticalDep = -1\<close> and \<^verbatim>\<open>new Date(0)\<close>. \<^verbatim>\<open>todoStart\<close> is the result of
  \<^verbatim>\<open>earliestStart.get(todoId)\<close>; \<^verbatim>\<open>todoStart.getTime()\<close> throws when it is undefined.
\<close>

fun findCriticalDep ::
  "(number \<times> int) list \<Rightarrow> int option \<Rightarrow> number list \<Rightarrow> number \<times> int \<Rightarrow> error + (number \<times> int)" where
  "findCriticalDep completionTime todoStart [] st = Inr st"
| "findCriticalDep completionTime todoStart (depId # deps) (criticalDep, latestDepCompletion) =
     (case Map_get completionTime depId of
        None \<Rightarrow> findCriticalDep completionTime todoStart deps (criticalDep, latestDepCompletion)
      | Some depCompletion \<Rightarrow>
          (case todoStart of
             None \<Rightarrow> Inl TypeError
           | Some start \<Rightarrow>
               if \<bar>depCompletion - start\<bar> < 1000 then
                 (if depCompletion > latestDepCompletion
                  then findCriticalDep completionTime todoStart deps (depId, depCompletion)
                  else findCriticalDep completionTime todoStart deps (criticalDep, latestDepCompletion))
               else findCriticalDep completionTime todoStart deps (criticalDep, latestDepCompletion)))"

lemma findCriticalDep_key:
  "findCriticalDep completionTime todoStart deps (c, l) = Inr (c', l') \<Longrightarrow>
     c' = c \<or> c' \<in> set (Map_keys completionTime)"
proof (induction deps arbitrary: c l)
  case Nil
  then show ?case by simp
next
  case (Cons depId deps)
  show ?case
  proof (cases "Map_get completionTime depId")
    case None
    with Cons show ?thesis by simp
  next
    case (Some depCompletion)
    then have k: "depId \<in> set (Map_keys completionTime)"
      by (metis map_of_eq_None_iff option.distinct(1) set_map)
    from Cons.prems Some obtain start where s: "todoStart = Some start"
      by (cases todoStart) auto
    show ?thesis
    proof (cases "\<bar>depCompletion - start\<bar> < 1000 \<and> depCompletion > l")
      case True
      with Cons.prems Some s
      have "findCriticalDep completionTime todoStart deps (depId, depCompletion) = Inr (c', l')"
        by simp
      from Cons.IH[OF this] k show ?thesis by auto
    next
      case False
      with Cons.prems Some s
      have "findCriticalDep completionTime todoStart deps (c, l) = Inr (c', l')"
        by (auto split: if_splits)
      from Cons.IH[OF this] show ?thesis .
    qed
  qed
qed

text \<open>
  \<^verbatim>\<open>tracePath\<close>, with the set \<^verbatim>\<open>visited\<close> (here \<open>seen\<close>) and the array
  \<^verbatim>\<open>criticalPath\<close> that it updates.
\<close>

function tracePath ::
  "(string \<Rightarrow> error + json) \<Rightarrow> Todo list \<Rightarrow> (number \<times> int) list \<Rightarrow> (number \<times> int) list
     \<Rightarrow> number \<Rightarrow> number set \<times> number list \<Rightarrow> error + (number set \<times> number list)" where
  "tracePath parse todos earliestStartMap completionTime todoId (seen, criticalPath) =
     (if todoId \<in> seen then Inr (seen, criticalPath)
      else
        (case find (\<lambda>t. id' t = todoId) todos of
           None \<Rightarrow> Inr (insert todoId seen, criticalPath @ [todoId])
         | Some todo \<Rightarrow>
             (case findCriticalDep completionTime (Map_get earliestStartMap todoId)
                     (parseDependencies parse (or_null (dependencies todo))) (- 1, 0) of
                Inl e \<Rightarrow> Inl e
              | Inr (criticalDep, latestDepCompletion) \<Rightarrow>
                  if criticalDep \<noteq> - 1
                  then tracePath parse todos earliestStartMap completionTime criticalDep
                         (insert todoId seen, criticalPath @ [todoId])
                  else Inr (insert todoId seen, criticalPath @ [todoId]))))"
  by pat_completeness auto
termination
proof (relation "measure (\<lambda>(parse, todos, earliestStartMap, completionTime, todoId, seen, criticalPath).
    card (insert todoId (set (Map_keys completionTime)) - seen))", goal_cases)
  case 1
  show ?case by simp
next
  case (2 parse todos earliestStartMap completionTime todoId seen criticalPath todo r criticalDep l)
  then have "findCriticalDep completionTime (Map_get earliestStartMap todoId)
      (parseDependencies parse (or_null (dependencies todo))) (- 1, 0) = Inr (criticalDep, l)"
    by simp
  from findCriticalDep_key[OF this] 2 have k: "criticalDep \<in> set (Map_keys completionTime)"
    by simp
  let ?K = "set (Map_keys completionTime)"
  have "insert criticalDep ?K - insert todoId seen \<subset> insert todoId ?K - seen"
    using k 2(1) by auto
  then have "card (insert criticalDep ?K - insert todoId seen) < card (insert todoId ?K - seen)"
    by (intro psubset_card_mono) auto
  then show ?case by simp
qed

definition findCriticalPath ::
  "(string \<Rightarrow> error + json) \<Rightarrow> Todo list \<Rightarrow> (number \<times> int) list \<Rightarrow> (number \<times> int) list
     \<Rightarrow> error + number list" where
  "findCriticalPath parse todos earliestStartMap completionTime =
     (case findEndTask completionTime of
        (latestCompletion, endTask) \<Rightarrow>
          if endTask = - 1 then Inr []
          else (case tracePath parse todos earliestStartMap completionTime endTask ({}, []) of
                  Inl e \<Rightarrow> Inl e
                | Inr (seen, criticalPath) \<Rightarrow> Inr (rev criticalPath)))"

text \<open>
  \<^verbatim>\<open>calculateSchedule\<close>: the result spreads every task and adds the three computed
  fields.
\<close>

definition calculateSchedule ::
  "(nat \<Rightarrow> int) \<Rightarrow> (string \<Rightarrow> error + json) \<Rightarrow> Todo list \<Rightarrow> error + TodoWithCalculations list" where
  "calculateSchedule clock parse todos =
     (case scheduleTimes clock parse todos of
        Inl e \<Rightarrow> Inl e
      | Inr (n, earliestStartMap, completionTime) \<Rightarrow>
          (case findCriticalPath parse todos earliestStartMap completionTime of
             Inl e \<Rightarrow> Inl e
           | Inr criticalPath \<Rightarrow>
               Inr (map (\<lambda>todo. Todo.extend todo
                           (TodoWithCalculations.fields
                              (parseDependencies parse (or_null (dependencies todo)))
                              (Map_get earliestStartMap (id' todo))
                              (id' todo \<in> set criticalPath)))
                      todos)))"


section \<open>The vocabulary of the claims\<close>

subsection \<open>Dependency graphs\<close>

text \<open>
  The dependencies of a task that are present in the collection, in the order of its
  dependency list: the only ones that \<^verbatim>\<open>topologicalSort\<close> counts
  (\<^verbatim>\<open>if (graph.has(depId))\<close>).
\<close>

definition existingDeps :: "(string \<Rightarrow> error + json) \<Rightarrow> Todo list \<Rightarrow> Todo \<Rightarrow> number list" where
  "existingDeps parse todos todo =
     filter (\<lambda>dep. dep \<in> set (map id' todos)) (parseDependencies parse (or_null (dependencies todo)))"

text \<open>
  The dependency graph of a collection: an edge \<open>(dep, t)\<close> for every task \<open>t\<close> and every
  dependency \<open>dep\<close> of it that is present. The collection is acyclic when this relation
  is.
\<close>

definition dependencyEdges :: "(string \<Rightarrow> error + json) \<Rightarrow> Todo list \<Rightarrow> (number \<times> number) set" where
  "dependencyEdges parse todos =
     set (concat (map (\<lambda>todo. map (\<lambda>dep. (dep, id' todo)) (existingDeps parse todos todo)) todos))"

text \<open>A task is on a cycle or downstream of one: some node of a cycle reaches it.\<close>

definition onOrAfterCycle :: "(string \<Rightarrow> error + json) \<Rightarrow> Todo list \<Rightarrow> number \<Rightarrow> bool" where
  "onOrAfterCycle parse todos t =
     (\<exists>c. (c, c) \<in> (dependencyEdges parse todos)\<^sup>+ \<and> (c, t) \<in> (dependencyEdges parse todos)\<^sup>*)"

text \<open>A parsed element that \<^verbatim>\<open>typeof\<close> reports as a number.\<close>

fun isNumber :: "json \<Rightarrow> bool" where
  "isNumber (JNumber n) = True"
| "isNumber v = False"

subsection \<open>The invariant of Kahn's loop\<close>

text \<open>
  The pairs (task, dependency) in the order in which the second loop of
  \<^verbatim>\<open>topologicalSort\<close> meets them, and those of them whose dependency is present.
\<close>

definition edgeList :: "(string \<Rightarrow> error + json) \<Rightarrow> Todo list \<Rightarrow> (number \<times> number) list" where
  "edgeList parse todos =
     concat (map (\<lambda>todo. map (Pair (id' todo)) (parseDependencies parse (or_null (dependencies todo)))) todos)"

definition presentEdges :: "(string \<Rightarrow> error + json) \<Rightarrow> Todo list \<Rightarrow> (number \<times> number) list" where
  "presentEdges parse todos = filter (\<lambda>e. snd e \<in> id' ` set todos) (edgeList parse todos)"

text \<open>
  The forward adjacency map \<open>g\<close> lists, for every identifier of \<open>I\<close>, its dependents with
  their multiplicity, for the pairs \<open>X\<close>.
\<close>

definition graphRep :: "(number \<times> number) list \<Rightarrow> number set \<Rightarrow> (number \<times> number list) list \<Rightarrow> bool" where
  "graphRep X I g =
     ((\<forall>d\<in>I. Map_get g d = Some (map fst (filter (\<lambda>e. snd e = d) X)))
      \<and> (\<forall>e\<in>set X. fst e \<in> I \<and> snd e \<in> I))"

text \<open>
  The state (queue \<open>q\<close>, in-degrees \<open>m\<close>, result \<open>r\<close>) of the loop: nothing is queued or
  placed twice; the in-degree of a task counts its dependencies not yet placed; a task is
  queued or placed exactly when all its dependencies are placed; every placed task
  stands after its dependencies.
\<close>

definition kahnInv ::
  "(number \<times> number) list \<Rightarrow> number set \<Rightarrow> number list \<times> (number \<times> int) list \<times> number list \<Rightarrow> bool" where
  "kahnInv X I = (\<lambda>(q, m, r).
     distinct (r @ q) \<and> set (r @ q) \<subseteq> I
     \<and> (\<forall>t\<in>I. Map_get m t = Some (int (length (filter (\<lambda>e. fst e = t \<and> snd e \<notin> set r) X))))
     \<and> (\<forall>t\<in>I. (t \<in> set (r @ q)) = (\<forall>e\<in>set X. fst e = t \<longrightarrow> snd e \<in> set r))
     \<and> (\<forall>ys c zs. r = ys @ c # zs \<longrightarrow> (\<forall>e\<in>set X. fst e = c \<longrightarrow> snd e \<in> set ys)))"

subsection \<open>The range of time values\<close>

text \<open>
  A \<^verbatim>\<open>Date\<close> holds a time value of at most 8640000000000000 ms on either side of the
  epoch; \<^verbatim>\<open>new Date(t)\<close> with \<open>t\<close> beyond that is an Invalid Date, and every comparison
  with it is false. The schedule calculator is modelled with integer time values, which
  is what the source computes as long as every time value of the run is in that range:
  the clock readings, the earliest starts and the completion timestamps. \<open>timesInRange\<close>
  says so of one invocation; the results on the computed timestamps are stated under it.
\<close>

definition validTime :: "int \<Rightarrow> bool" where
  "validTime t = (\<bar>t\<bar> \<le> 8640000000000000)"

text \<open>The map \<^verbatim>\<open>completionTime\<close> at the end of the loop over \<^verbatim>\<open>sortedIds\<close>.\<close>

definition completionTimes ::
  "(nat \<Rightarrow> int) \<Rightarrow> (string \<Rightarrow> error + json) \<Rightarrow> Todo list \<Rightarrow> (number \<times> int) list" where
  "completionTimes clock parse todos =
     (case scheduleTimes clock parse todos of
        Inl e \<Rightarrow> []
      | Inr (n, earliestStartMap, completionTime) \<Rightarrow> completionTime)"

definition timesInRange :: "(nat \<Rightarrow> int) \<Rightarrow> (string \<Rightarrow> error + json) \<Rightarrow> Todo list \<Rightarrow> bool" where
  "timesInRange clock parse todos =
     (case scheduleTimes clock parse todos of
        Inl e \<Rightarrow> False
      | Inr (n, earliestStartMap, completionTime) \<Rightarrow>
          list_all (\<lambda>j. validTime (clock j)) [0..<n]
          \<and> list_all (\<lambda>e. validTime (snd e)) earliestStartMap
          \<and> list_all (\<lambda>e. validTime (snd e)) completionTime)"

subsection \<open>The selection rule of the backward trace\<close>

text \<open>
  The selection rule in the words of the specification: among the dependencies whose
  completion timestamp lies within 1000 ms of the earliest start of the current task, the
  one with the latest completion timestamp, the first in the order of the dependency list
  on a tie; none when no dependency is within the tolerance.
\<close>

definition withinTolerance :: "(number \<times> int) list \<Rightarrow> int \<Rightarrow> number \<Rightarrow> bool" where
  "withinTolerance completionTime start dep =
     (case Map_get completionTime dep of Some c \<Rightarrow> \<bar>c - start\<bar> < 1000 | None \<Rightarrow> False)"

definition completionOf :: "(number \<times> int) list \<Rightarrow> number \<Rightarrow> int" where
  "completionOf completionTime dep = (case Map_get completionTime dep of Some c \<Rightarrow> c | None \<Rightarrow> 0)"

definition spec_predecessor :: "(number \<times> int) list \<Rightarrow> int \<Rightarrow> number list \<Rightarrow> number option" where
  "spec_predecessor completionTime start deps =
     (let qualifying = filter (withinTolerance completionTime start) deps
      in find (\<lambda>dep. \<forall>other\<in>set qualifying.
                   completionOf completionTime other \<le> completionOf completionTime dep)
           qualifying)"

subsection \<open>Example task collections and clocks\<close>

text \<open>A task with the given identifier, dependency text and duration.\<close>

definition task :: "number \<Rightarrow> string option \<Rightarrow> int option \<Rightarrow> Todo" where
  "task i deps hours =
     \<lparr>id' = i, title = ''task'', createdAt = 0, dueDate = None, imageUrl = None,
      dependencies = deps, duration = hours\<rparr>"

text \<open>The initial state of the depth-first search.\<close>

definition dfs0 :: dfs where
  "dfs0 = \<lparr>visited = {}, recursionStack = {}\<rparr>"

text \<open>Task \<open>2\<close> (3 hours) depends on task \<open>1\<close> (2 hours); the dependent task comes first.\<close>

definition chain :: "Todo list" where
  "chain = [task 2 (Some ''[1]'') (Some 3), task 1 None (Some 2)]"

text \<open>Two tasks that depend on each other.\<close>

definition mutualCycle :: "Todo list" where
  "mutualCycle = [task 1 (Some ''[2]'') None, task 2 (Some ''[1]'') None]"

text \<open>Task \<open>2\<close> depends on task \<open>1\<close>, whose stored duration is \<open>-5\<close> hours.\<close>

definition negativeDuration :: "Todo list" where
  "negativeDuration = [task 1 None (Some (- 5)), task 2 (Some ''[1]'') None]"

text \<open>Two tasks that depend on each other, and a third task without dependencies.\<close>

definition cycleAndFree :: "Todo list" where
  "cycleAndFree = [task 1 (Some ''[2]'') None, task 2 (Some ''[1]'') None, task 3 None None]"

text \<open>Two tasks without dependencies.\<close>

definition twoFree :: "Todo list" where
  "twoFree = [task 1 None None, task 2 None None]"


text \<open>
  Task \<open>3\<close> (2 hours) depends on task \<open>2\<close> (\<open>-1\<close> hour), which depends on task \<open>1\<close>
  (1 hour).
\<close>

definition backToEpoch :: "Todo list" where
  "backToEpoch = [task 1 None None, task 2 (Some ''[1]'') (Some (- 1)), task 3 (Some ''[2]'') (Some 2)]"

text \<open>
  A clock that advances by one millisecond from one reading to the next, and a clock
  that does not advance during the invocation.
\<close>

definition clockAdvancing :: "nat \<Rightarrow> int" where
  "clockAdvancing n = 1700000000000 + int n"

definition clockFrozen :: "nat \<Rightarrow> int" where
  "clockFrozen n = 1700000000000"

text \<open>A clock that stands at the epoch, and one that stands one hour before it.\<close>

definition clockEpoch :: "nat \<Rightarrow> int" where
  "clockEpoch n = 0"

definition clockBeforeEpoch :: "nat \<Rightarrow> int" where
  "clockBeforeEpoch n = - 3600000"

section \<open>The dependency parser: results\<close>

lemma parseDependencies_or_null:
  "parseDependencies parse (or_null d) = parseDependencies parse d"
  by (simp add: parseDependencies_def or_null_def split: option.splits)

lemma as_numbers_filter:
  "map JNumber (as_numbers (filter (\<lambda>v. typeof v = ''number'') elems)) = filter isNumber elems"
proof (induction elems)
  case Nil
  show ?case by simp
next
  case (Cons v elems)
  then show ?case by (cases v) simp_all
qed

text \<open>
  Claim C8. \<^verbatim>\<open>parseDependencies\<close> returns the empty list for an absent input, for the
  empty string, for every string on which \<^verbatim>\<open>JSON.parse\<close> throws, and for every string
  that parses to a value that is not an array. The thrown error is caught: the result is
  a list in every case.
\<close>

theorem parseDependencies_fail_open:
  assumes "d = None \<or> d = Some [] \<or> (\<exists>s e. d = Some s \<and> parse s = Inl e)
             \<or> (\<exists>s v. d = Some s \<and> parse s = Inr v \<and> (\<forall>elems. v \<noteq> JArray elems))"
  shows "parseDependencies parse d = []"
proof -
  consider (absent) "d = None" | (empty) "d = Some []"
    | (throws) s e where "d = Some s" "parse s = Inl e"
    | (other) s v where "d = Some s" "parse s = Inr v" "\<forall>elems. v \<noteq> JArray elems"
    using assms by blast
  then show ?thesis
  proof cases
    case absent
    then show ?thesis by (simp add: parseDependencies_def)
  next
    case empty
    then show ?thesis by (simp add: parseDependencies_def)
  next
    case throws
    then show ?thesis by (simp add: parseDependencies_def)
  next
    case other
    then show ?thesis by (cases v) (simp_all add: parseDependencies_def)
  qed
qed

theorem parseDependencies_fail_open_witness:
  "parse_examples ''not-json'' = Inl SyntaxError
     \<and> parseDependencies parse_examples (Some ''not-json'') = []
     \<and> parse_examples ''{}'' = Inr (JObject [])
     \<and> parseDependencies parse_examples (Some ''{}'') = []
     \<and> calculateSchedule clockFrozen parse_examples [task 1 (Some ''not-json'') None] =
         Inr [\<lparr>id' = 1, title = ''task'', createdAt = 0, dueDate = None, imageUrl = None,
               dependencies = Some ''not-json'', duration = None,
               dependsOn = [], earliestStart = Some 1700000000000, isOnCriticalPath = True\<rparr>]"
proof -
  have a: "parse_examples ''not-json'' = Inl SyntaxError"
    by (simp add: parse_examples_def)
  have b: "parse_examples ''{}'' = Inr (JObject [])"
    by (simp add: parse_examples_def)
  have c: "parseDependencies parse_examples (Some ''not-json'') = []"
    by (rule parseDependencies_fail_open) (use a in blast)
  have d: "parseDependencies parse_examples (Some ''{}'') = []"
    by (rule parseDependencies_fail_open) (use b in blast)
  have "calculateSchedule clockFrozen parse_examples [task 1 (Some ''not-json'') None] =
         Inr [\<lparr>id' = 1, title = ''task'', createdAt = 0, dueDate = None, imageUrl = None,
               dependencies = Some ''not-json'', duration = None,
               dependsOn = [], earliestStart = Some 1700000000000, isOnCriticalPath = True\<rparr>]"
    using c
    by (simp add: calculateSchedule_def scheduleTimes_def todoMap_of_def
        topologicalSort_def buildEdges_def initialize_def addEdge_def Map_has_def
        findCriticalPath_def findEndTask_def duration_or_1_def clockFrozen_def task_def
        or_null_def Todo.defs TodoWithCalculations.defs)
  with a b c d show ?thesis by simp
qed

text \<open>
  Claim C9, as the code has it. For a non-empty string that parses to an array, the
  result holds exactly the elements of the array that are numbers, in their order; every
  other element is dropped. A number that is not an integer, such as \<open>1.5\<close>, is kept.
\<close>

theorem parseDependencies_keeps_numbers:
  assumes "parse s = Inr (JArray elems)" and "s \<noteq> []"
  shows "map JNumber (parseDependencies parse (Some s)) = filter isNumber elems"
  using assms by (simp add: parseDependencies_def as_numbers_filter)

theorem parseDependencies_keeps_numbers_witness:
  "parse_examples ''[1.5,null,2]'' = Inr (JArray [JNumber (3 / 2), JNull, JNumber 2])
     \<and> map JNumber (parseDependencies parse_examples (Some ''[1.5,null,2]''))
         = [JNumber (3 / 2), JNumber 2]"
proof -
  have a: "parse_examples ''[1.5,null,2]'' = Inr (JArray [JNumber (3 / 2), JNull, JNumber 2])"
    by (simp add: parse_examples_def)
  have b: "''[1.5,null,2]'' \<noteq> []" by simp
  show ?thesis
    using parseDependencies_keeps_numbers[of parse_examples "''[1.5,null,2]''", OF a b] a
    by simp
qed

text \<open>
  Claim C9, as stated, fails: the array \<^verbatim>\<open>[1.5,null,2]\<close> yields a list that holds \<open>1.5\<close>,
  which is not an integer.
\<close>

theorem parseDependencies_keeps_non_integer:
  "parseDependencies parse_examples (Some ''[1.5,null,2]'') = [3 / 2, 2]
     \<and> \<not> isInteger (3 / 2)"
proof -
  have "\<lfloor>3 / 2 :: rat\<rfloor> = 1" by (rule floor_unique) simp_all
  then show ?thesis
    by (simp add: parseDependencies_def parse_examples_def isInteger_def)
qed

section \<open>The cycle detector: results\<close>

lemma hasCircularDependency_False: "hasCircularDependency parse todos newTodo = False"
  by (simp add: hasCircularDependency_def Let_def)

text \<open>
  Claim C1 fails on the code. The task \<open>1\<close> with the candidate dependency list \<open>[1]\<close>
  depends on itself: the search \<^verbatim>\<open>hasCycle\<close> started at node \<open>1\<close> finds the cycle, and
  \<^verbatim>\<open>hasCircularDependency\<close> still returns \<^verbatim>\<open>false\<close>.
\<close>

theorem hasCircularDependency_misses_self_dependency:
  "buildGraph parse_examples [task 1 None None] \<lparr>newTodo_id = Some 1, newTodo_dependencies = [1]\<rparr>
       = [(1, [1])]
     \<and> fst (hasCycle [(1, [1])] 1 dfs0)
     \<and> \<not> hasCircularDependency parse_examples [task 1 None None]
           \<lparr>newTodo_id = Some 1, newTodo_dependencies = [1]\<rparr>"
  by (simp add: buildGraph_def task_def parseDependencies_def or_null_def dfs0_def
      hasCircularDependency_False)

section \<open>The topological orderer: results\<close>

lemma map_of_Map_set: "Map_get (Map_set m k v) = (Map_get m)(k \<mapsto> v)"
  by (induction m) (auto simp: fun_eq_iff)

lemma keys_Map_set: "fst ` set (Map_set m k v) = insert k (fst ` set m)"
  by (simp add: dom_map_of_conv_image_fst[symmetric] map_of_Map_set)

lemma distinct_Map_set: "distinct (Map_keys m) \<Longrightarrow> distinct (Map_keys (Map_set m k v))"
proof (induction m)
  case Nil
  show ?case by simp
next
  case (Cons e m)
  then show ?case using keys_Map_set[of m k v] by (cases e) auto
qed

lemma Map_has_iff: "Map_has m k = (Map_get m k \<noteq> None)"
  by (simp add: Map_has_def map_of_eq_None_iff)

lemma visitNeighbors_spec:
  "visitNeighbors ns (m, q) = (m', q') \<Longrightarrow>
     (\<forall>t. Map_get m' t = map_option (\<lambda>d. d - int (count_list ns t)) (Map_get m t))
     \<and> (\<exists>added. q' = q @ added \<and> distinct added
          \<and> set added = {t \<in> set ns. \<exists>d. Map_get m t = Some d \<and> 1 \<le> d \<and> d \<le> int (count_list ns t)})"
proof (induction ns arbitrary: m q)
  case Nil
  then show ?case by (auto simp: option.map_ident map_option.identity)
next
  case (Cons n ns)
  show ?case
  proof (cases "Map_get m n")
    case None
    with Cons.prems have "visitNeighbors ns (m, q) = (m', q')" by simp
    from Cons.IH[OF this] obtain added where
      a: "\<forall>t. Map_get m' t = map_option (\<lambda>d. d - int (count_list ns t)) (Map_get m t)"
      and b: "q' = q @ added" "distinct added"
        "set added = {t \<in> set ns. \<exists>d. Map_get m t = Some d \<and> 1 \<le> d \<and> d \<le> int (count_list ns t)}"
      by blast
    have "\<forall>t. Map_get m' t = map_option (\<lambda>d. d - int (count_list (n # ns) t)) (Map_get m t)"
      using a None by auto
    moreover have "set added = {t \<in> set (n # ns). \<exists>d. Map_get m t = Some d \<and> 1 \<le> d \<and> d \<le> int (count_list (n # ns) t)}"
      using b(3) None by auto
    ultimately show ?thesis using b by blast
  next
    case (Some d)
    let ?m1 = "Map_set m n (d - 1)"
    show ?thesis
    proof (cases "d = 1")
      case True
      with Cons.prems Some have "visitNeighbors ns (?m1, q @ [n]) = (m', q')" by simp
      from Cons.IH[OF this] obtain added where
        a: "\<forall>t. Map_get m' t = map_option (\<lambda>d. d - int (count_list ns t)) (Map_get ?m1 t)"
        and b: "q' = (q @ [n]) @ added" "distinct added"
          "set added = {t \<in> set ns. \<exists>e. Map_get ?m1 t = Some e \<and> 1 \<le> e \<and> e \<le> int (count_list ns t)}"
        by blast
      have 1: "\<forall>t. Map_get m' t = map_option (\<lambda>d. d - int (count_list (n # ns) t)) (Map_get m t)"
        using a Some by (auto simp: map_of_Map_set)
      have 2: "n \<notin> set added" using b(3) True by (auto simp: map_of_Map_set)
      have 3: "set (n # added) = {t \<in> set (n # ns). \<exists>d. Map_get m t = Some d \<and> 1 \<le> d \<and> d \<le> int (count_list (n # ns) t)}"
        using b(3) Some True by (auto simp: map_of_Map_set)
      have "q' = q @ (n # added)" "distinct (n # added)" using b 2 by auto
      with 1 3 show ?thesis by blast
    next
      case False
      with Cons.prems Some have "visitNeighbors ns (?m1, q) = (m', q')" by simp
      from Cons.IH[OF this] obtain added where
        a: "\<forall>t. Map_get m' t = map_option (\<lambda>d. d - int (count_list ns t)) (Map_get ?m1 t)"
        and b: "q' = q @ added" "distinct added"
          "set added = {t \<in> set ns. \<exists>e. Map_get ?m1 t = Some e \<and> 1 \<le> e \<and> e \<le> int (count_list ns t)}"
        by blast
      have 1: "\<forall>t. Map_get m' t = map_option (\<lambda>d. d - int (count_list (n # ns) t)) (Map_get m t)"
        using a Some by (auto simp: map_of_Map_set)
      have 3: "set added = {t \<in> set (n # ns). \<exists>d. Map_get m t = Some d \<and> 1 \<le> d \<and> d \<le> int (count_list (n # ns) t)}"
        using b(3) Some False by (auto simp: map_of_Map_set count_list_0_iff)
      with 1 b show ?thesis by blast
    qed
  qed
qed

lemma count_list_map_fst_filter:
  "count_list (map fst (filter P X)) t = length (filter (\<lambda>e. fst e = t \<and> P e) X)"
  by (induction X) auto

lemma length_filter_split:
  "length (filter P X) = length (filter (\<lambda>e. P e \<and> Q e) X) + length (filter (\<lambda>e. P e \<and> \<not> Q e) X)"
  by (induction X) auto

lemma kahnInv_step:
  assumes inv: "kahnInv X I (c # q, m, r)"
    and rep: "graphRep X I g"
    and vis: "visitNeighbors (case Map_get g c of Some ns \<Rightarrow> ns | None \<Rightarrow> []) (m, q) = (m', q')"
  shows "kahnInv X I (q', m', r @ [c])"
proof -
  from inv have d: "distinct (r @ c # q)" and sub: "set (r @ c # q) \<subseteq> I"
    and deg: "\<forall>t\<in>I. Map_get m t = Some (int (length (filter (\<lambda>e. fst e = t \<and> snd e \<notin> set r) X)))"
    and mem: "\<forall>t\<in>I. (t \<in> set (r @ c # q)) = (\<forall>e\<in>set X. fst e = t \<longrightarrow> snd e \<in> set r)"
    and top: "\<forall>ys c' zs. r = ys @ c' # zs \<longrightarrow> (\<forall>e\<in>set X. fst e = c' \<longrightarrow> snd e \<in> set ys)"
    unfolding kahnInv_def prod.case by blast+
  from sub have cI: "c \<in> I" by simp
  from d have cr: "c \<notin> set r" and cq: "c \<notin> set q" by auto
  define ns where "ns = map fst (filter (\<lambda>e. snd e = c) X)"
  from rep cI have "Map_get g c = Some ns" by (simp add: graphRep_def ns_def)
  with vis have vis': "visitNeighbors ns (m, q) = (m', q')" by simp
  from rep have XI: "\<forall>e\<in>set X. fst e \<in> I \<and> snd e \<in> I" by (simp add: graphRep_def)
  define A where "A t = length (filter (\<lambda>e. fst e = t \<and> snd e \<notin> set r) X)" for t
  define B where "B t = length (filter (\<lambda>e. fst e = t \<and> snd e = c) X)" for t
  define A' where "A' t = length (filter (\<lambda>e. fst e = t \<and> snd e \<notin> set (r @ [c])) X)" for t
  have cnt: "count_list ns t = B t" for t
    by (simp add: ns_def B_def count_list_map_fst_filter)
  have AB: "A t = A' t + B t" for t
  proof -
    have "(\<lambda>e. (fst e = t \<and> snd e \<notin> set r) \<and> snd e = c) = (\<lambda>e. fst e = t \<and> snd e = c)"
      using cr by auto
    moreover have "(\<lambda>e. (fst e = t \<and> snd e \<notin> set r) \<and> snd e \<noteq> c) = (\<lambda>e. fst e = t \<and> snd e \<notin> set (r @ [c]))"
      by auto
    ultimately show ?thesis
      using length_filter_split[of "\<lambda>e. fst e = t \<and> snd e \<notin> set r" X "\<lambda>e. snd e = c"]
      by (simp add: A_def B_def A'_def)
  qed
  have A0: "(A t = 0) = (\<forall>e\<in>set X. fst e = t \<longrightarrow> snd e \<in> set r)" for t
    by (auto simp: A_def filter_empty_conv)
  have A'0: "(A' t = 0) = (\<forall>e\<in>set X. fst e = t \<longrightarrow> snd e \<in> set (r @ [c]))" for t
    by (auto simp: A'_def filter_empty_conv)
  have Bpos: "(t \<in> set ns) = (1 \<le> B t)" for t
    using cnt[of t] by (metis count_list_0_iff less_one not_le)
  have nsI: "set ns \<subseteq> I" using XI by (auto simp: ns_def)
  from visitNeighbors_spec[OF vis'] obtain added where
    m': "\<forall>t. Map_get m' t = map_option (\<lambda>d. d - int (count_list ns t)) (Map_get m t)"
    and q': "q' = q @ added" and da: "distinct added"
    and sa: "set added = {t \<in> set ns. \<exists>d. Map_get m t = Some d \<and> 1 \<le> d \<and> d \<le> int (count_list ns t)}"
    by blast
  have degA: "Map_get m t = Some (int (A t))" if "t \<in> I" for t
    using deg that by (simp add: A_def)
  have added: "set added = {t \<in> I. 1 \<le> B t \<and> A' t = 0}"
  proof -
    have "(t \<in> set added) = (t \<in> I \<and> 1 \<le> B t \<and> A' t = 0)" for t
    proof (cases "t \<in> set ns")
      case True
      then have tI: "t \<in> I" using nsI by auto
      from True have b: "1 \<le> B t" by (simp add: Bpos)
      have "(t \<in> set added) = (1 \<le> A t \<and> A t \<le> B t)"
        using sa True degA[OF tI] by (auto simp: cnt)
      also have "\<dots> = (A' t = 0)" using AB[of t] b by auto
      finally show ?thesis using tI b by simp
    next
      case False
      then show ?thesis using sa by (auto simp: Bpos)
    qed
    then show ?thesis by blast
  qed
  have 3: "\<forall>t\<in>I. Map_get m' t = Some (int (length (filter (\<lambda>e. fst e = t \<and> snd e \<notin> set (r @ [c])) X)))"
  proof
    fix t assume "t \<in> I"
    from degA[OF this] m' have "Map_get m' t = Some (int (A t) - int (B t))" by (simp add: cnt)
    then show "Map_get m' t = Some (int (length (filter (\<lambda>e. fst e = t \<and> snd e \<notin> set (r @ [c])) X)))"
      using AB[of t] by (simp add: A'_def)
  qed
  have old: "(t \<in> set (r @ c # q)) = (A t = 0)" if "t \<in> I" for t
    using mem that by (simp add: A0)
  have 4: "\<forall>t\<in>I. (t \<in> set ((r @ [c]) @ q')) = (\<forall>e\<in>set X. fst e = t \<longrightarrow> snd e \<in> set (r @ [c]))"
  proof
    fix t assume tI: "t \<in> I"
    have "(t \<in> set ((r @ [c]) @ q')) = (t \<in> set (r @ c # q) \<or> t \<in> set added)"
      by (auto simp: q')
    also have "\<dots> = (A t = 0 \<or> (1 \<le> B t \<and> A' t = 0))"
      using old[OF tI] added tI by simp
    also have "\<dots> = (A' t = 0)" using AB[of t] by auto
    finally show "(t \<in> set ((r @ [c]) @ q')) = (\<forall>e\<in>set X. fst e = t \<longrightarrow> snd e \<in> set (r @ [c]))"
      by (simp only: A'0)
  qed
  have disj: "set added \<inter> set (r @ c # q) = {}"
  proof -
    have "t \<notin> set (r @ c # q)" if "t \<in> set added" for t
    proof -
      from that added have "t \<in> I" "1 \<le> B t" by auto
      then have "A t \<noteq> 0" using AB[of t] by simp
      with old[OF \<open>t \<in> I\<close>] show ?thesis by simp
    qed
    then show ?thesis by blast
  qed
  have 1: "distinct ((r @ [c]) @ q')"
    using d da disj by (auto simp: q')
  have 2: "set ((r @ [c]) @ q') \<subseteq> I"
    using sub added by (auto simp: q')
  have 5: "\<forall>ys c' zs. r @ [c] = ys @ c' # zs \<longrightarrow> (\<forall>e\<in>set X. fst e = c' \<longrightarrow> snd e \<in> set ys)"
  proof (intro allI impI)
    fix ys c' zs assume eq: "r @ [c] = ys @ c' # zs"
    show "\<forall>e\<in>set X. fst e = c' \<longrightarrow> snd e \<in> set ys"
    proof (cases zs rule: rev_cases)
      case Nil
      with eq have "ys = r" "c' = c" by auto
      moreover have "\<forall>e\<in>set X. fst e = c \<longrightarrow> snd e \<in> set r"
        using mem cI by auto
      ultimately show ?thesis by simp
    next
      case (snoc zs' z)
      with eq have "r = ys @ c' # zs'" by (metis append_Cons append_assoc butlast_snoc)
      with top show ?thesis by blast
    qed
  qed
  from 1 2 3 4 5 show ?thesis unfolding kahnInv_def prod.case by blast
qed

lemma kahn_inv:
  "kahnInv X I (q, m, r) \<Longrightarrow> graphRep X I g \<Longrightarrow> \<exists>m'. kahnInv X I ([], m', kahn g (q, m, r))"
proof (induction g "(q, m, r)" arbitrary: q m r rule: kahn.induct)
  case (1 graph inDegree result)
  then show ?case by auto
next
  case (2 graph current queue inDegree result)
  obtain m' q' where v: "visitNeighbors (case Map_get graph current of Some ns \<Rightarrow> ns | None \<Rightarrow> [])
      (inDegree, queue) = (m', q')"
    by (cases "visitNeighbors (case Map_get graph current of Some ns \<Rightarrow> ns | None \<Rightarrow> []) (inDegree, queue)")
  from kahnInv_step[OF "2.prems"(1) "2.prems"(2) v]
  have "kahnInv X I (q', m', result @ [current])" .
  from "2.hyps"[OF v[symmetric] this "2.prems"(2)] v show ?case by simp
qed

lemma buildEdges_fold:
  "buildEdges parse todos s = fold (\<lambda>e. addEdge (fst e) (snd e)) (edgeList parse todos) s"
proof (induction todos arbitrary: s)
  case Nil
  show ?case by (simp add: buildEdges_def edgeList_def)
next
  case (Cons todo todos)
  have "fold (\<lambda>e. addEdge (fst e) (snd e)) (map (Pair (id' todo)) ds) s = fold (addEdge (id' todo)) ds s" for ds
    by (simp add: fold_map comp_def)
  with Cons show ?case by (simp add: buildEdges_def edgeList_def)
qed

lemma initialize_fold:
  "fold (\<lambda>todo (graph, inDegree). (Map_set graph (id' todo) [], Map_set inDegree (id' todo) 0)) todos (g, m) = (g', m')
   \<Longrightarrow> (\<forall>k. Map_get g' k = (if k \<in> id' ` set todos then Some [] else Map_get g k))
     \<and> (\<forall>k. Map_get m' k = (if k \<in> id' ` set todos then Some 0 else Map_get m k))
     \<and> (distinct (Map_keys m) \<longrightarrow> distinct (Map_keys m'))"
proof (induction todos arbitrary: g m)
  case Nil
  then show ?case by simp
next
  case (Cons todo todos)
  from Cons.prems have "fold (\<lambda>todo (graph, inDegree). (Map_set graph (id' todo) [], Map_set inDegree (id' todo) 0)) todos
      (Map_set g (id' todo) [], Map_set m (id' todo) 0) = (g', m')"
    by simp
  from Cons.IH[OF this] show ?case
    by (auto simp: map_of_Map_set distinct_Map_set)
qed

lemma initialize_spec:
  "initialize todos = (g, m) \<Longrightarrow>
     (\<forall>k. Map_get g k = (if k \<in> id' ` set todos then Some [] else None))
     \<and> (\<forall>k. Map_get m k = (if k \<in> id' ` set todos then Some 0 else None))
     \<and> distinct (Map_keys m)"
  using initialize_fold[of todos "[]" "[]" g m] by (simp add: initialize_def)

lemma addEdges_spec:
  assumes "\<forall>k. Map_get g0 k = (if k \<in> I then Some [] else None)"
    and "\<forall>k. Map_get m0 k = (if k \<in> I then Some 0 else None)"
    and "distinct (Map_keys m0)"
    and "\<forall>e\<in>set E. fst e \<in> I"
    and "fold (\<lambda>e. addEdge (fst e) (snd e)) E (g0, m0) = (g, m)"
  shows "(\<forall>k. Map_get g k = (if k \<in> I then Some (map fst (filter (\<lambda>e. snd e = k) E)) else None))
     \<and> (\<forall>k. Map_get m k = (if k \<in> I then Some (int (length (filter (\<lambda>e. fst e = k \<and> snd e \<in> I) E))) else None))
     \<and> distinct (Map_keys m)"
  using assms(4,5)
proof (induction E arbitrary: g m rule: rev_induct)
  case Nil
  with assms(1-3) show ?case by simp
next
  case (snoc e E)
  obtain g1 m1 where s1: "fold (\<lambda>e. addEdge (fst e) (snd e)) E (g0, m0) = (g1, m1)"
    by (cases "fold (\<lambda>e. addEdge (fst e) (snd e)) E (g0, m0)")
  from snoc.prems(1) have EI: "\<forall>e\<in>set E. fst e \<in> I" and eI: "fst e \<in> I" by auto
  from snoc.IH[OF EI s1]
  have g1: "\<forall>k. Map_get g1 k = (if k \<in> I then Some (map fst (filter (\<lambda>e. snd e = k) E)) else None)"
    and m1: "\<forall>k. Map_get m1 k = (if k \<in> I then Some (int (length (filter (\<lambda>e. fst e = k \<and> snd e \<in> I) E))) else None)"
    and d1: "distinct (Map_keys m1)"
    by blast+
  from snoc.prems(2) s1 have step: "addEdge (fst e) (snd e) (g1, m1) = (g, m)" by simp
  show ?case
  proof (cases "snd e \<in> I")
    case True
    with g1 have has: "Map_has g1 (snd e)" "Map_get g1 (snd e) = Some (map fst (filter (\<lambda>x. snd x = snd e) E))"
      by (simp_all add: Map_has_iff)
    from m1 eI have me: "Map_get m1 (fst e) = Some (int (length (filter (\<lambda>x. fst x = fst e \<and> snd x \<in> I) E)))"
      by simp
    from step has me
    have g: "g = Map_set g1 (snd e) (map fst (filter (\<lambda>x. snd x = snd e) E) @ [fst e])"
      and m: "m = Map_set m1 (fst e) (int (length (filter (\<lambda>x. fst x = fst e \<and> snd x \<in> I) E)) + 1)"
      by (simp_all add: addEdge_def)
    have "\<forall>k. Map_get g k = (if k \<in> I then Some (map fst (filter (\<lambda>e. snd e = k) (E @ [e]))) else None)"
      using g1 True by (auto simp: g map_of_Map_set)
    moreover have "\<forall>k. Map_get m k = (if k \<in> I then Some (int (length (filter (\<lambda>x. fst x = k \<and> snd x \<in> I) (E @ [e])))) else None)"
      using m1 True eI by (auto simp: m map_of_Map_set)
    moreover have "distinct (Map_keys m)" using d1 by (simp add: m distinct_Map_set)
    ultimately show ?thesis by blast
  next
    case False
    with g1 have "\<not> Map_has g1 (snd e)" by (simp add: Map_has_iff)
    with step have "g = g1" "m = m1" by (simp_all add: addEdge_def)
    with g1 m1 d1 False show ?thesis by auto
  qed
qed

lemma presentEdges_iff:
  "((t, d) \<in> set (presentEdges parse todos)) = ((d, t) \<in> dependencyEdges parse todos)"
  by (auto simp: presentEdges_def edgeList_def dependencyEdges_def existingDeps_def)

lemma dependencyEdges_ids:
  "(d, t) \<in> dependencyEdges parse todos \<Longrightarrow> d \<in> id' ` set todos \<and> t \<in> id' ` set todos"
  by (auto simp: dependencyEdges_def existingDeps_def)

lemma topologicalSort_inv:
  "\<exists>m'. kahnInv (presentEdges parse todos) (id' ` set todos) ([], m', topologicalSort parse todos)"
proof -
  let ?I = "id' ` set todos"
  let ?E = "edgeList parse todos"
  let ?X = "presentEdges parse todos"
  obtain g0 m0 where i: "initialize todos = (g0, m0)" by (cases "initialize todos")
  obtain g m where b: "buildEdges parse todos (g0, m0) = (g, m)"
    by (cases "buildEdges parse todos (g0, m0)")
  from initialize_spec[OF i]
  have g0: "\<forall>k. Map_get g0 k = (if k \<in> ?I then Some [] else None)"
    and m0: "\<forall>k. Map_get m0 k = (if k \<in> ?I then Some 0 else None)"
    and d0: "distinct (Map_keys m0)"
    by blast+
  have EI: "\<forall>e\<in>set ?E. fst e \<in> ?I" by (auto simp: edgeList_def)
  from b have "fold (\<lambda>e. addEdge (fst e) (snd e)) ?E (g0, m0) = (g, m)"
    by (simp add: buildEdges_fold)
  from addEdges_spec[OF g0 m0 d0 EI this]
  have g: "\<forall>k. Map_get g k = (if k \<in> ?I then Some (map fst (filter (\<lambda>e. snd e = k) ?E)) else None)"
    and m: "\<forall>k. Map_get m k = (if k \<in> ?I then Some (int (length (filter (\<lambda>e. fst e = k \<and> snd e \<in> ?I) ?E))) else None)"
    and dm: "distinct (Map_keys m)"
    by blast+
  have rep: "graphRep ?X ?I g"
  proof -
    have "map fst (filter (\<lambda>e. snd e = d) ?E) = map fst (filter (\<lambda>e. snd e = d) ?X)" if "d \<in> ?I" for d
    proof -
      have "filter (\<lambda>e. snd e = d) ?X = filter (\<lambda>e. snd e = d) ?E"
        unfolding presentEdges_def filter_filter by (rule filter_cong) (use that in auto)
      then show ?thesis by simp
    qed
    with g EI show ?thesis by (auto simp: graphRep_def presentEdges_def)
  qed
  let ?seed = "map fst (filter (\<lambda>(nodeId, degree). degree = 0) m)"
  have len: "length (filter (\<lambda>e. fst e = t \<and> snd e \<in> ?I) ?E) = length (filter (\<lambda>e. fst e = t) ?X)" for t
    by (simp add: presentEdges_def conj_commute)
  have seed: "(t \<in> set ?seed) = (Map_get m t = Some 0)" for t
    using dm by (auto simp: map_of_eq_Some_iff image_iff)
  have inv0: "kahnInv ?X ?I (?seed, m, [])"
  proof -
    have 1: "distinct ?seed" using dm by (simp add: distinct_map_filter)
    have 2: "set ?seed \<subseteq> ?I"
    proof
      fix t assume "t \<in> set ?seed"
      then have "Map_get m t = Some 0" by (simp only: seed)
      with m show "t \<in> ?I" by (metis option.distinct(1))
    qed
    have 3: "\<forall>t\<in>?I. Map_get m t = Some (int (length (filter (\<lambda>e. fst e = t \<and> snd e \<notin> set []) ?X)))"
      using m by (simp add: len)
    have 4: "\<forall>t\<in>?I. (t \<in> set ([] @ ?seed)) = (\<forall>e\<in>set ?X. fst e = t \<longrightarrow> snd e \<in> set [])"
    proof
      fix t assume tI: "t \<in> ?I"
      have "(t \<in> set ?seed) = (Map_get m t = Some 0)" by (rule seed)
      also have "\<dots> = (length (filter (\<lambda>e. fst e = t) ?X) = 0)" using m tI by (simp add: len)
      also have "\<dots> = (\<forall>e\<in>set ?X. fst e = t \<longrightarrow> snd e \<in> set [])"
        by (auto simp: filter_empty_conv)
      finally show "(t \<in> set ([] @ ?seed)) = (\<forall>e\<in>set ?X. fst e = t \<longrightarrow> snd e \<in> set [])" by simp
    qed
    from 1 2 3 4 show ?thesis unfolding kahnInv_def prod.case by simp
  qed
  from kahn_inv[OF inv0 rep] obtain m' where "kahnInv ?X ?I ([], m', kahn g (?seed, m, []))" by blast
  moreover have "topologicalSort parse todos = kahn g (?seed, m, [])"
    using i b by (simp add: topologicalSort_def)
  ultimately show ?thesis by auto
qed

lemma topologicalSort_distinct: "distinct (topologicalSort parse todos)"
  using topologicalSort_inv[of parse todos] unfolding kahnInv_def prod.case by auto

lemma topologicalSort_ids: "set (topologicalSort parse todos) \<subseteq> id' ` set todos"
  using topologicalSort_inv[of parse todos] unfolding kahnInv_def prod.case by auto

lemma topologicalSort_closed:
  assumes "t \<in> id' ` set todos"
  shows "(t \<in> set (topologicalSort parse todos))
     = (\<forall>d. (d, t) \<in> dependencyEdges parse todos \<longrightarrow> d \<in> set (topologicalSort parse todos))"
proof -
  from topologicalSort_inv[of parse todos] assms
  have "(t \<in> set (topologicalSort parse todos))
      = (\<forall>e\<in>set (presentEdges parse todos). fst e = t \<longrightarrow> snd e \<in> set (topologicalSort parse todos))"
    unfolding kahnInv_def prod.case by auto
  also have "\<dots> = (\<forall>d. (d, t) \<in> dependencyEdges parse todos \<longrightarrow> d \<in> set (topologicalSort parse todos))"
    by (auto simp: presentEdges_iff[symmetric])
  finally show ?thesis .
qed

lemma topologicalSort_before:
  assumes "(d, t) \<in> dependencyEdges parse todos" and "topologicalSort parse todos = ys @ t # zs"
  shows "d \<in> set ys"
proof -
  from assms(1) have "(t, d) \<in> set (presentEdges parse todos)" by (simp add: presentEdges_iff)
  with topologicalSort_inv[of parse todos] assms(2) show ?thesis
    unfolding kahnInv_def prod.case by fastforce
qed

lemma topologicalSort_before_trancl:
  assumes "(d, t) \<in> (dependencyEdges parse todos)\<^sup>+"
  shows "topologicalSort parse todos = ys @ t # zs \<Longrightarrow> d \<in> set ys"
  using assms
proof (induction arbitrary: ys zs rule: trancl_induct)
  case (base y)
  then show ?case using topologicalSort_before by blast
next
  case (step y z)
  from topologicalSort_before[OF step.hyps(2) step.prems] have "y \<in> set ys" .
  then obtain ys1 ys2 where ys: "ys = ys1 @ y # ys2" by (meson split_list)
  with step.prems have "topologicalSort parse todos = ys1 @ y # (ys2 @ z # zs)" by simp
  from step.IH[OF this] ys show ?case by simp
qed

lemma topologicalSort_no_cycle:
  assumes "t \<in> set (topologicalSort parse todos)"
  shows "\<not> onOrAfterCycle parse todos t"
proof
  assume "onOrAfterCycle parse todos t"
  then obtain c where cc: "(c, c) \<in> (dependencyEdges parse todos)\<^sup>+"
    and ct: "(c, t) \<in> (dependencyEdges parse todos)\<^sup>*"
    by (auto simp: onOrAfterCycle_def)
  have "c \<in> set (topologicalSort parse todos)"
  proof (cases "c = t")
    case True
    with assms show ?thesis by simp
  next
    case False
    with ct have "(c, t) \<in> (dependencyEdges parse todos)\<^sup>+" by (simp add: rtrancl_eq_or_trancl)
    moreover from assms obtain ys zs where "topologicalSort parse todos = ys @ t # zs"
      by (meson split_list)
    ultimately have "c \<in> set ys \<and> topologicalSort parse todos = ys @ t # zs"
      using topologicalSort_before_trancl by blast
    then show ?thesis by auto
  qed
  then obtain ys zs where d: "topologicalSort parse todos = ys @ c # zs" by (meson split_list)
  from topologicalSort_before_trancl[OF cc d] have "c \<in> set ys" .
  with d topologicalSort_distinct[of parse todos] show False by auto
qed

lemma finite_dependencyEdges: "finite (dependencyEdges parse todos)"
  by (simp add: dependencyEdges_def)

lemma topologicalSort_missing:
  assumes tI: "t \<in> id' ` set todos" and tn: "t \<notin> set (topologicalSort parse todos)"
  shows "onOrAfterCycle parse todos t"
proof -
  let ?E = "dependencyEdges parse todos"
  let ?res = "topologicalSort parse todos"
  define R where "R = {(a, b) \<in> ?E. a \<notin> set ?res \<and> b \<notin> set ?res}"
  define T where "T = {s. (s, t) \<in> R\<^sup>*}"
  define R' where "R' = {(a, b) \<in> R. b \<in> T}"
  have RE: "R \<subseteq> ?E" and R'R: "R' \<subseteq> R" by (auto simp: R_def R'_def)
  have fin: "finite R'" using RE R'R finite_dependencyEdges[of parse todos]
    by (meson finite_subset)
  have pred: "\<exists>d. (d, z) \<in> R'" if "z \<in> T" for z
  proof -
    from that have zt: "(z, t) \<in> R\<^sup>*" by (simp add: T_def)
    have zn: "z \<notin> set ?res \<and> z \<in> id' ` set todos"
    proof (cases "z = t")
      case True
      with tI tn show ?thesis by simp
    next
      case False
      with zt obtain y where "(z, y) \<in> R" by (meson converse_rtranclE)
      then show ?thesis using dependencyEdges_ids[of z y parse todos] by (auto simp: R_def)
    qed
    with topologicalSort_closed[of z todos parse]
    obtain d where d: "(d, z) \<in> ?E" "d \<notin> set ?res" by blast
    with zn have "(d, z) \<in> R" by (simp add: R_def)
    with that show ?thesis by (auto simp: R'_def)
  qed
  have "\<not> acyclic R'"
  proof
    assume "acyclic R'"
    with fin have "wf R'" by (rule finite_acyclic_wf)
    moreover have "t \<in> T" by (simp add: T_def)
    ultimately obtain z where z: "z \<in> T" "\<And>y. (y, z) \<in> R' \<Longrightarrow> y \<notin> T"
      by (rule wfE_min) auto
    from pred[OF z(1)] obtain d where d: "(d, z) \<in> R'" by blast
    then have "(d, z) \<in> R" using R'R by auto
    with z(1) have "d \<in> T" by (auto simp: T_def intro: converse_rtrancl_into_rtrancl)
    with z(2)[OF d] show False by simp
  qed
  then obtain c where c: "(c, c) \<in> R'\<^sup>+" by (auto simp: acyclic_def)
  then obtain b where "(b, c) \<in> R'" by (meson tranclE)
  then have "c \<in> T" by (simp add: R'_def)
  then have "(c, t) \<in> R\<^sup>*" by (simp add: T_def)
  then have 1: "(c, t) \<in> ?E\<^sup>*" using RE by (meson rtrancl_mono subsetD)
  from c have 2: "(c, c) \<in> ?E\<^sup>+" using RE R'R by (meson trancl_mono subset_trans)
  from 1 2 show ?thesis by (auto simp: onOrAfterCycle_def)
qed

lemma topologicalSort_set:
  "set (topologicalSort parse todos) = {t \<in> set (map id' todos). \<not> onOrAfterCycle parse todos t}"
  using topologicalSort_missing[of _ todos parse] topologicalSort_no_cycle[of _ parse todos]
    topologicalSort_ids[of parse todos]
  by auto

lemma acyclic_no_cycle:
  "acyclic (dependencyEdges parse todos) \<Longrightarrow> \<not> onOrAfterCycle parse todos t"
  by (auto simp: acyclic_def onOrAfterCycle_def)

lemma before_index:
  assumes "xs = ys @ t # zs" and "d \<in> set ys"
  shows "\<exists>i j. i < j \<and> j < length xs \<and> xs ! i = d \<and> xs ! j = t"
proof -
  from assms(2) obtain i where i: "i < length ys" "ys ! i = d" by (auto simp: in_set_conv_nth)
  have "xs ! i = d" using assms(1) i by (simp add: nth_append)
  moreover have "xs ! length ys = t" using assms(1) by simp
  moreover have "length ys < length xs" using assms(1) by simp
  ultimately show ?thesis using i(1) by blast
qed

text \<open>
  Claim C2. For an acyclic collection the result of \<^verbatim>\<open>topologicalSort\<close> holds every
  task identifier exactly once (no repetition, and the same set of identifiers), and
  every dependency of a task that is present in the collection stands at a strictly
  smaller position than the task.
\<close>

theorem topologicalSort_acyclic:
  assumes "acyclic (dependencyEdges parse todos)"
  shows "distinct (topologicalSort parse todos)
     \<and> set (topologicalSort parse todos) = set (map id' todos)
     \<and> (\<forall>todo\<in>set todos. \<forall>dep\<in>set (existingDeps parse todos todo).
          \<exists>i j. i < j \<and> j < length (topologicalSort parse todos)
            \<and> topologicalSort parse todos ! i = dep \<and> topologicalSort parse todos ! j = id' todo)"
proof -
  let ?res = "topologicalSort parse todos"
  have s: "set ?res = set (map id' todos)"
    using acyclic_no_cycle[OF assms] by (simp add: topologicalSort_set)
  have "\<exists>i j. i < j \<and> j < length ?res \<and> ?res ! i = dep \<and> ?res ! j = id' todo"
    if "todo \<in> set todos" "dep \<in> set (existingDeps parse todos todo)" for todo dep
  proof -
    from that have e: "(dep, id' todo) \<in> dependencyEdges parse todos"
      by (auto simp: dependencyEdges_def)
    from that(1) s have "id' todo \<in> set ?res" by simp
    then obtain ys zs where d: "?res = ys @ id' todo # zs" by (meson split_list)
    from topologicalSort_before[OF e d] have "dep \<in> set ys" .
    with d show ?thesis by (rule before_index)
  qed
  with s topologicalSort_distinct[of parse todos] show ?thesis by blast
qed

lemma chain_edges: "dependencyEdges parse_examples chain = {(1, 2)}"
  by (simp add: dependencyEdges_def existingDeps_def chain_def task_def parseDependencies_def
      or_null_def parse_examples_def)

lemma chain_sort: "topologicalSort parse_examples chain = [1, 2]"
  by (simp add: topologicalSort_def buildEdges_def initialize_def addEdge_def Map_has_def
      chain_def task_def parseDependencies_def or_null_def parse_examples_def)

theorem topologicalSort_acyclic_witness:
  "acyclic (dependencyEdges parse_examples chain)
     \<and> topologicalSort parse_examples chain = [1, 2]
     \<and> distinct (topologicalSort parse_examples chain)
     \<and> set (topologicalSort parse_examples chain) = set (map id' chain)"
proof -
  have "acyclic ({} :: (number \<times> number) set)" by (simp add: acyclic_def)
  then have a: "acyclic (dependencyEdges parse_examples chain)"
    by (simp add: chain_edges acyclic_insert)
  from topologicalSort_acyclic[OF a] a chain_sort show ?thesis by simp
qed

lemma topologicalSort_truncated:
  assumes "\<not> acyclic (dependencyEdges parse todos)"
  shows "length (topologicalSort parse todos) < length todos"
proof -
  let ?res = "topologicalSort parse todos"
  from assms obtain c where c: "(c, c) \<in> (dependencyEdges parse todos)\<^sup>+"
    by (auto simp: acyclic_def)
  then obtain b where "(b, c) \<in> dependencyEdges parse todos" by (meson tranclE)
  then have cI: "c \<in> set (map id' todos)" using dependencyEdges_ids[of b c parse todos] by simp
  from c have "onOrAfterCycle parse todos c" by (auto simp: onOrAfterCycle_def)
  then have "c \<notin> set ?res" using topologicalSort_no_cycle by blast
  with cI have "set ?res \<subset> set (map id' todos)" using topologicalSort_ids[of parse todos] by auto
  then have "card (set ?res) < card (set (map id' todos))" by (intro psubset_card_mono) auto
  moreover have "card (set ?res) = length ?res"
    using topologicalSort_distinct[of parse todos] by (simp add: distinct_card)
  moreover have "card (set (map id' todos)) \<le> length todos"
    by (metis card_length length_map)
  ultimately show ?thesis by simp
qed

lemma topologicalSort_order:
  assumes "todo \<in> set todos" and "dep \<in> set (existingDeps parse todos todo)"
    and "id' todo \<in> set (topologicalSort parse todos)"
  shows "\<exists>i j. i < j \<and> j < length (topologicalSort parse todos)
            \<and> topologicalSort parse todos ! i = dep \<and> topologicalSort parse todos ! j = id' todo"
proof -
  from assms(1,2) have e: "(dep, id' todo) \<in> dependencyEdges parse todos"
    by (auto simp: dependencyEdges_def)
  from assms(3) obtain ys zs where d: "topologicalSort parse todos = ys @ id' todo # zs"
    by (meson split_list)
  from topologicalSort_before[OF e d] have "dep \<in> set ys" .
  with d show ?thesis by (rule before_index)
qed

lemma mutualCycle_sort:
  assumes "parse ''[2]'' = Inr (JArray [JNumber 2])" and "parse ''[1]'' = Inr (JArray [JNumber 1])"
  shows "topologicalSort parse [task 1 (Some ''[2]'') h1, task 2 (Some ''[1]'') h2] = []"
  using assms
  by (simp add: topologicalSort_def buildEdges_def initialize_def addEdge_def Map_has_def
      task_def parseDependencies_def or_null_def)

text \<open>
  Claim C7. On a collection whose dependency graph has a cycle, \<^verbatim>\<open>topologicalSort\<close>
  returns a list (the function is total and has no error result) without repetition that
  holds exactly the tasks that are neither on a cycle nor downstream of one, so fewer
  identifiers than there are tasks; the tasks it holds still come after their
  dependencies. For two tasks that depend on each other the result is empty, whatever
  their durations.
\<close>

theorem topologicalSort_cyclic:
  "(\<not> acyclic (dependencyEdges parse todos) \<longrightarrow>
      distinct (topologicalSort parse todos)
      \<and> set (topologicalSort parse todos)
          = {t \<in> set (map id' todos). \<not> onOrAfterCycle parse todos t}
      \<and> length (topologicalSort parse todos) < length todos
      \<and> (\<forall>todo\<in>set todos. \<forall>dep\<in>set (existingDeps parse todos todo).
            id' todo \<in> set (topologicalSort parse todos) \<longrightarrow>
            (\<exists>i j. i < j \<and> j < length (topologicalSort parse todos)
               \<and> topologicalSort parse todos ! i = dep
               \<and> topologicalSort parse todos ! j = id' todo)))
   \<and> (parse ''[2]'' = Inr (JArray [JNumber 2]) \<and> parse ''[1]'' = Inr (JArray [JNumber 1]) \<longrightarrow>
        topologicalSort parse [task 1 (Some ''[2]'') h1, task 2 (Some ''[1]'') h2] = [])"
  using topologicalSort_distinct[of parse todos] topologicalSort_set[of parse todos]
    topologicalSort_truncated[of parse todos] topologicalSort_order[of _ todos _ parse]
    mutualCycle_sort[of parse h1 h2]
  by blast

lemma mutualCycle_edges: "dependencyEdges parse_examples mutualCycle = {(2, 1), (1, 2)}"
  by (simp add: dependencyEdges_def existingDeps_def mutualCycle_def task_def parseDependencies_def
      or_null_def parse_examples_def)

theorem topologicalSort_cyclic_witness:
  "\<not> acyclic (dependencyEdges parse_examples mutualCycle)
     \<and> parse_examples ''[2]'' = Inr (JArray [JNumber 2])
     \<and> parse_examples ''[1]'' = Inr (JArray [JNumber 1])
     \<and> topologicalSort parse_examples mutualCycle = []
     \<and> length (topologicalSort parse_examples mutualCycle) < length mutualCycle"
proof -
  have "(1, 1) \<in> {(2, 1), (1, 2 :: number)}\<^sup>+"
    by (rule trancl_trans[of 1 2]) auto
  then have a: "\<not> acyclic (dependencyEdges parse_examples mutualCycle)"
    by (auto simp: mutualCycle_edges acyclic_def)
  have b: "parse_examples ''[2]'' = Inr (JArray [JNumber 2])"
    "parse_examples ''[1]'' = Inr (JArray [JNumber 1])"
    by (simp_all add: parse_examples_def)
  from topologicalSort_cyclic[of parse_examples mutualCycle None None] a b
  show ?thesis by (simp add: mutualCycle_def)
qed

section \<open>The schedule calculator: results\<close>

lemma todoMap_fold:
  "Map_get (fold (\<lambda>todo m. Map_set m (id' todo) todo) todos m) k \<noteq> None
     = (k \<in> id' ` set todos \<or> Map_get m k \<noteq> None)"
  by (induction todos arbitrary: m) (auto simp: map_of_Map_set)

lemma todoMap_range:
  "Map_get (fold (\<lambda>todo m. Map_set m (id' todo) todo) todos m) k = Some todo
     \<Longrightarrow> (todo \<in> set todos \<and> id' todo = k) \<or> Map_get m k = Some todo"
proof (induction todos arbitrary: m)
  case Nil
  then show ?case by simp
next
  case (Cons a todos)
  from Cons.prems have "Map_get (fold (\<lambda>todo m. Map_set m (id' todo) todo) todos (Map_set m (id' a) a)) k = Some todo"
    by simp
  from Cons.IH[OF this] show ?case
    by (auto simp: map_of_Map_set split: if_splits)
qed

lemma todoMap_of_defined: "k \<in> id' ` set todos \<Longrightarrow> \<exists>todo. Map_get (todoMap_of todos) k = Some todo"
  using todoMap_fold[of todos "[]" k] by (auto simp: todoMap_of_def)

lemma todoMap_of_member:
  "Map_get (todoMap_of todos) k = Some todo \<Longrightarrow> todo \<in> set todos \<and> id' todo = k"
  using todoMap_range[of todos "[]" k todo] by (simp add: todoMap_of_def)

lemma todoMap_distinct_fold:
  "distinct (map id' todos) \<Longrightarrow>
     Map_get (fold (\<lambda>todo m. Map_set m (id' todo) todo) todos m) k
       = (case find (\<lambda>t. id' t = k) todos of Some t \<Rightarrow> Some t | None \<Rightarrow> Map_get m k)"
proof (induction todos arbitrary: m)
  case Nil
  show ?case by simp
next
  case (Cons a todos)
  from Cons.prems have "id' a \<notin> id' ` set todos" by simp
  then have "\<forall>x\<in>set todos. id' x \<noteq> id' a" by (metis imageI)
  then have "find (\<lambda>t. id' t = id' a) todos = None"
    by (simp add: find_None_iff)
  with Cons show ?case by (auto simp: map_of_Map_set split: option.splits)
qed

lemma todoMap_of_distinct:
  assumes "distinct (map id' todos)" and "todo \<in> set todos"
  shows "Map_get (todoMap_of todos) (id' todo) = Some todo"
proof -
  from assms have "find (\<lambda>t. id' t = id' todo) todos = Some todo"
  proof (induction todos)
    case Nil
    then show ?case by simp
  next
    case (Cons a todos)
    then show ?case by (auto simp: image_iff)
  qed
  with assms(1) show ?thesis by (simp add: todoMap_of_def todoMap_distinct_fold)
qed

lemma maxCompletion_cong:
  "(\<forall>d\<in>set deps. Map_get c1 d = Map_get c2 d) \<Longrightarrow> maxCompletion c1 deps mx = maxCompletion c2 deps mx"
  by (induction deps arbitrary: mx) (auto split: option.splits)

lemma maxCompletion_Max:
  "maxCompletion ct deps mx = Max (insert mx {c. \<exists>d\<in>set deps. Map_get ct d = Some c})"
proof (induction deps arbitrary: mx)
  case Nil
  show ?case by simp
next
  case (Cons d deps)
  let ?S = "{c. \<exists>d\<in>set deps. Map_get ct d = Some c}"
  have fin: "finite ?S"
  proof -
    have "?S \<subseteq> the ` Map_get ct ` set deps" by force
    then show ?thesis by (meson finite_imageI finite_set finite_subset)
  qed
  show ?case
  proof (cases "Map_get ct d")
    case None
    then have "{c. \<exists>d'\<in>set (d # deps). Map_get ct d' = Some c} = ?S" by auto
    moreover from None have "maxCompletion ct (d # deps) mx = maxCompletion ct deps mx" by simp
    ultimately show ?thesis by (simp only: Cons.IH)
  next
    case (Some c)
    then have eq: "{c. \<exists>d'\<in>set (d # deps). Map_get ct d' = Some c} = insert c ?S" by auto
    show ?thesis
    proof (cases "c > mx")
      case True
      with Some have "maxCompletion ct (d # deps) mx = maxCompletion ct deps c" by simp
      also have "\<dots> = Max (insert c ?S)" by (rule Cons.IH)
      also have "\<dots> = Max (insert mx (insert c ?S))"
      proof -
        have f: "finite (insert c ?S)" using fin by (rule finite.insertI)
        have "c \<le> Max (insert c ?S)" using f by (rule Max_ge) simp
        moreover have "Max (insert mx (insert c ?S)) = max mx (Max (insert c ?S))"
          using f by (rule Max_insert) simp
        ultimately show ?thesis using True by (simp add: max_def)
      qed
      finally show ?thesis by (simp only: eq)
    next
      case False
      with Some have "maxCompletion ct (d # deps) mx = maxCompletion ct deps mx" by simp
      also have "\<dots> = Max (insert mx ?S)" by (rule Cons.IH)
      also have "\<dots> = Max (insert mx (insert c ?S))"
      proof -
        have f: "finite (insert mx ?S)" using fin by (rule finite.insertI)
        have "mx \<le> Max (insert mx ?S)" using f by (rule Max_ge) simp
        moreover have "Max (insert c (insert mx ?S)) = max c (Max (insert mx ?S))"
          using f by (rule Max_insert) simp
        ultimately show ?thesis using False by (simp add: insert_commute max_def)
      qed
      finally show ?thesis by (simp only: eq)
    qed
  qed
qed

lemma scheduleLoop_Cons:
  assumes "scheduleLoop clock parse tm (a # s) (n, es, ct) = Inr r"
  obtains todo where "Map_get tm a = Some todo"
    and "scheduleLoop clock parse tm s
           (Suc n,
            Map_set es a (maxCompletion ct (parseDependencies parse (or_null (dependencies todo))) (clock n)),
            Map_set ct a (maxCompletion ct (parseDependencies parse (or_null (dependencies todo))) (clock n)
                          + duration_or_1 (duration todo) * 60 * 60 * 1000)) = Inr r"
  using assms by (cases "Map_get tm a") (simp_all add: Let_def)

lemma scheduleLoop_total:
  "\<forall>i\<in>set s. Map_get tm i \<noteq> None \<Longrightarrow>
     \<exists>es' ct'. scheduleLoop clock parse tm s (n, es, ct) = Inr (n + length s, es', ct')"
proof (induction s arbitrary: n es ct)
  case Nil
  show ?case by simp
next
  case (Cons a s)
  from Cons.prems obtain todo where todo: "Map_get tm a = Some todo" by auto
  from Cons.prems have "\<forall>i\<in>set s. Map_get tm i \<noteq> None" by simp
  from Cons.IH[OF this, of "Suc n"] todo show ?case by (simp add: Let_def)
qed

lemma scheduleLoop_keys:
  "scheduleLoop clock parse tm s (n, es, ct) = Inr (n', es', ct') \<Longrightarrow>
     fst ` set es' = fst ` set es \<union> set s \<and> fst ` set ct' = fst ` set ct \<union> set s"
proof (induction s arbitrary: n es ct)
  case Nil
  then show ?case by simp
next
  case (Cons a s)
  from Cons.prems show ?case
  proof (rule scheduleLoop_Cons)
    fix todo :: Todo
    assume "scheduleLoop clock parse tm s
           (Suc n,
            Map_set es a (maxCompletion ct (parseDependencies parse (or_null (dependencies todo))) (clock n)),
            Map_set ct a (maxCompletion ct (parseDependencies parse (or_null (dependencies todo))) (clock n)
                          + duration_or_1 (duration todo) * 60 * 60 * 1000)) = Inr (n', es', ct')"
    from Cons.IH[OF this] show ?thesis by (simp add: keys_Map_set)
  qed
qed

lemma scheduleLoop_frame:
  "scheduleLoop clock parse tm s (n, es, ct) = Inr (n', es', ct') \<Longrightarrow> k \<notin> set s \<Longrightarrow>
     Map_get es' k = Map_get es k \<and> Map_get ct' k = Map_get ct k"
proof (induction s arbitrary: n es ct)
  case Nil
  then show ?case by simp
next
  case (Cons a s)
  from Cons.prems(1) show ?case
  proof (rule scheduleLoop_Cons)
    fix todo :: Todo
    assume "scheduleLoop clock parse tm s
           (Suc n,
            Map_set es a (maxCompletion ct (parseDependencies parse (or_null (dependencies todo))) (clock n)),
            Map_set ct a (maxCompletion ct (parseDependencies parse (or_null (dependencies todo))) (clock n)
                          + duration_or_1 (duration todo) * 60 * 60 * 1000)) = Inr (n', es', ct')"
    from Cons.IH[OF this] Cons.prems(2) show ?thesis by (simp add: map_of_Map_set)
  qed
qed

lemma scheduleLoop_at:
  "scheduleLoop clock parse tm s (n, es, ct) = Inr (n', es', ct') \<Longrightarrow> distinct s \<Longrightarrow> j < length s \<Longrightarrow>
     \<exists>todo cj. Map_get tm (s ! j) = Some todo
        \<and> Map_get es' (s ! j)
            = Some (maxCompletion cj (parseDependencies parse (or_null (dependencies todo))) (clock (n + j)))
        \<and> Map_get ct' (s ! j)
            = Some (maxCompletion cj (parseDependencies parse (or_null (dependencies todo))) (clock (n + j))
                    + duration_or_1 (duration todo) * 60 * 60 * 1000)
        \<and> (\<forall>d. Map_get cj d = (if d \<in> set (take j s) then Map_get ct' d else Map_get ct d))"
proof (induction s arbitrary: n es ct j)
  case Nil
  then show ?case by simp
next
  case (Cons a s)
  from Cons.prems(1) show ?case
  proof (rule scheduleLoop_Cons)
    fix todo :: Todo
    let ?mx = "maxCompletion ct (parseDependencies parse (or_null (dependencies todo))) (clock n)"
    let ?ct1 = "Map_set ct a (?mx + duration_or_1 (duration todo) * 60 * 60 * 1000)"
    assume todo: "Map_get tm a = Some todo"
      and r: "scheduleLoop clock parse tm s (Suc n, Map_set es a ?mx, ?ct1) = Inr (n', es', ct')"
    from Cons.prems(2) have an: "a \<notin> set s" and ds: "distinct s" by auto
    from scheduleLoop_frame[OF r an]
    have ea: "Map_get es' a = Some ?mx"
      "Map_get ct' a = Some (?mx + duration_or_1 (duration todo) * 60 * 60 * 1000)"
      by (simp_all add: map_of_Map_set)
    show ?thesis
    proof (cases j)
      case 0
      have "\<forall>d. Map_get ct d = (if d \<in> set (take 0 (a # s)) then Map_get ct' d else Map_get ct d)"
        by simp
      with 0 todo ea show ?thesis
        by (intro exI[of _ todo] exI[of _ ct]) simp
    next
      case (Suc j')
      with Cons.prems(3) have "j' < length s" by simp
      from Cons.IH[OF r ds this] obtain todo' cj where
        t: "Map_get tm (s ! j') = Some todo'"
        and e: "Map_get es' (s ! j')
                  = Some (maxCompletion cj (parseDependencies parse (or_null (dependencies todo'))) (clock (Suc n + j')))"
        and c: "Map_get ct' (s ! j')
                  = Some (maxCompletion cj (parseDependencies parse (or_null (dependencies todo'))) (clock (Suc n + j'))
                          + duration_or_1 (duration todo') * 60 * 60 * 1000)"
        and v: "\<forall>d. Map_get cj d = (if d \<in> set (take j' s) then Map_get ct' d else Map_get ?ct1 d)"
        by (elim exE conjE)
      have "\<forall>d. Map_get cj d = (if d \<in> set (take j (a # s)) then Map_get ct' d else Map_get ct d)"
        using v ea(2) Suc by (simp add: map_of_Map_set)
      with t e c Suc show ?thesis
        by (intro exI[of _ todo'] exI[of _ cj]) simp
    qed
  qed
qed

lemma truncate_extend: "Todo.truncate (Todo.extend todo (TodoWithCalculations.fields a b c)) = todo"
  by (simp add: Todo.defs TodoWithCalculations.defs)

lemma dependsOn_extend: "dependsOn (Todo.extend todo (TodoWithCalculations.fields a b c)) = a"
  by (simp add: Todo.defs TodoWithCalculations.defs)

lemma earliestStart_extend: "earliestStart (Todo.extend todo (TodoWithCalculations.fields a b c)) = b"
  by (simp add: Todo.defs TodoWithCalculations.defs)

lemma isOnCriticalPath_extend: "isOnCriticalPath (Todo.extend todo (TodoWithCalculations.fields a b c)) = c"
  by (simp add: Todo.defs TodoWithCalculations.defs)

lemma scheduleTimes_total:
  "\<exists>es ct. scheduleTimes clock parse todos = Inr (length (topologicalSort parse todos), es, ct)"
proof -
  have "\<forall>i\<in>set (topologicalSort parse todos). Map_get (todoMap_of todos) i \<noteq> None"
    using topologicalSort_ids[of parse todos] todoMap_of_defined[of _ todos] by fastforce
  from scheduleLoop_total[OF this, of clock parse 0 "[]" "[]"] show ?thesis
    by (simp add: scheduleTimes_def)
qed

lemma scheduleTimes_keys:
  assumes "scheduleTimes clock parse todos = Inr (n, es, ct)"
  shows "fst ` set es = set (topologicalSort parse todos)"
    and "fst ` set ct = set (topologicalSort parse todos)"
  using scheduleLoop_keys[of clock parse "todoMap_of todos" "topologicalSort parse todos" 0 "[]" "[]" n es ct]
    assms by (simp_all add: scheduleTimes_def)

lemma findCriticalDep_total:
  "\<exists>r. findCriticalDep ct (Some start) deps st = Inr r"
proof (induction deps arbitrary: st)
  case Nil
  show ?case by simp
next
  case (Cons d deps)
  obtain c l where st: "st = (c, l)" by (cases st)
  show ?case using Cons.IH by (simp add: st split: option.splits)
qed

lemma tracePath_total:
  "fst ` set ct \<subseteq> fst ` set es \<Longrightarrow> todoId \<in> fst ` set es \<Longrightarrow>
     \<exists>seen' path'. tracePath parse todos es ct todoId (seen, path) = Inr (seen', path')
        \<and> set path \<subseteq> set path' \<and> (todoId \<notin> seen \<longrightarrow> todoId \<in> set path')"
proof (induction parse todos es ct todoId "(seen, path)" arbitrary: seen path rule: tracePath.induct)
  case (1 parse todos es ct todoId seen path)
  show ?case
  proof (cases "todoId \<in> seen")
    case True
    then show ?thesis by simp
  next
    case False
    show ?thesis
    proof (cases "find (\<lambda>t. id' t = todoId) todos")
      case None
      with False show ?thesis by auto
    next
      case (Some todo)
      from "1.prems"(2) obtain start where start: "Map_get es todoId = Some start"
        by (metis domD dom_map_of_conv_image_fst)
      obtain cd l where f: "findCriticalDep ct (Map_get es todoId)
          (parseDependencies parse (or_null (dependencies todo))) (- 1, 0) = Inr (cd, l)"
        using findCriticalDep_total[of ct start] by (metis start surj_pair)
      show ?thesis
      proof (cases "cd = - 1")
        case True
        with False Some f show ?thesis by auto
      next
        case cdn: False
        from findCriticalDep_key[OF f] cdn have "cd \<in> fst ` set ct" by simp
        with "1.prems"(1) have "cd \<in> fst ` set es" by auto
        from "1.hyps"[OF False Some f refl cdn "1.prems"(1) this]
        obtain seen' path' where
          "tracePath parse todos es ct cd (insert todoId seen, path @ [todoId]) = Inr (seen', path')"
          "set (path @ [todoId]) \<subseteq> set path'"
          by blast
        with False Some f cdn show ?thesis by auto
      qed
    qed
  qed
qed

lemma findEndTask_fold:
  "fold (\<lambda>(todoId, time) (latestCompletion, endTask).
             if time > latestCompletion then (time, todoId) else (latestCompletion, endTask))
       ct (l0 :: int, e0 :: number) = (l, e) \<Longrightarrow>
   (e = e0 \<and> l = l0 \<and> (\<forall>x\<in>set ct. snd x \<le> l0)) \<or> (e \<in> fst ` set ct \<and> l0 < l)"
proof (induction ct arbitrary: l0 e0)
  case Nil
  then show ?case by simp
next
  case (Cons x ct)
  obtain k t where x: "x = (k, t)" by (cases x)
  show ?case
  proof (cases "t > l0")
    case True
    with Cons.prems x have "fold (\<lambda>(todoId, time) (latestCompletion, endTask).
             if time > latestCompletion then (time, todoId) else (latestCompletion, endTask))
       ct (t, k) = (l, e)" by simp
    from Cons.IH[OF this] True x show ?thesis by auto
  next
    case False
    with Cons.prems x have "fold (\<lambda>(todoId, time) (latestCompletion, endTask).
             if time > latestCompletion then (time, todoId) else (latestCompletion, endTask))
       ct (l0, e0) = (l, e)" by simp
    from Cons.IH[OF this] False x show ?thesis by auto
  qed
qed

lemma findEndTask_key:
  "findEndTask ct = (l, e) \<Longrightarrow> e = - 1 \<or> e \<in> fst ` set ct"
  using findEndTask_fold[of ct 0 "- 1" l e] by (auto simp: findEndTask_def)

lemma findEndTask_positive:
  "findEndTask ct = (l, e) \<Longrightarrow> \<exists>x\<in>set ct. 0 < snd x \<Longrightarrow> e \<in> fst ` set ct"
  using findEndTask_fold[of ct 0 "- 1" l e] by (fastforce simp: findEndTask_def)

lemma findCriticalPath_total:
  assumes "fst ` set ct = fst ` set es"
  shows "\<exists>path. findCriticalPath parse todos es ct = Inr path
     \<and> (snd (findEndTask ct) \<noteq> - 1 \<longrightarrow> snd (findEndTask ct) \<in> set path)"
proof -
  obtain l e where f: "findEndTask ct = (l, e)" by (cases "findEndTask ct")
  show ?thesis
  proof (cases "e = - 1")
    case True
    with f show ?thesis by (simp add: findCriticalPath_def)
  next
    case False
    with findEndTask_key[OF f] assms have "e \<in> fst ` set es" by simp
    from tracePath_total[OF _ this, of ct parse todos "{}" "[]"] assms
    obtain seen' path' where "tracePath parse todos es ct e ({}, []) = Inr (seen', path')"
      "e \<in> set path'"
      by auto
    with f False show ?thesis by (simp add: findCriticalPath_def)
  qed
qed

lemma calculateSchedule_total:
  "\<exists>es ct path.
     scheduleTimes clock parse todos = Inr (length (topologicalSort parse todos), es, ct)
     \<and> findCriticalPath parse todos es ct = Inr path
     \<and> calculateSchedule clock parse todos =
         Inr (map (\<lambda>todo. Todo.extend todo
                     (TodoWithCalculations.fields
                        (parseDependencies parse (or_null (dependencies todo)))
                        (Map_get es (id' todo))
                        (id' todo \<in> set path)))
                todos)"
proof -
  from scheduleTimes_total[of clock parse todos] obtain es ct where
    s: "scheduleTimes clock parse todos = Inr (length (topologicalSort parse todos), es, ct)"
    by blast
  from scheduleTimes_keys[OF s] have "fst ` set ct = fst ` set es" by simp
  from findCriticalPath_total[OF this, of parse todos] obtain path where
    p: "findCriticalPath parse todos es ct = Inr path"
    by blast
  from s p show ?thesis by (simp add: calculateSchedule_def)
qed

text \<open>
  Claim C10. \<^verbatim>\<open>calculateSchedule\<close> returns a result (no error) for every collection, every
  clock and every \<^verbatim>\<open>JSON.parse\<close>: one record for every task, in the order of the input,
  whose original fields are those of the task; the record type adds the three fields
  \<^verbatim>\<open>dependsOn\<close>, \<^verbatim>\<open>earliestStart\<close> and \<^verbatim>\<open>isOnCriticalPath\<close> and nothing else, and
  \<^verbatim>\<open>dependsOn\<close> is the parsed dependency list.
\<close>

theorem calculateSchedule_frame:
  "\<exists>res. calculateSchedule clock parse todos = Inr res
     \<and> map Todo.truncate res = todos
     \<and> map dependsOn res = map (\<lambda>todo. parseDependencies parse (dependencies todo)) todos"
proof -
  from calculateSchedule_total[of clock parse todos] obtain es ct path where
    "calculateSchedule clock parse todos =
         Inr (map (\<lambda>todo. Todo.extend todo
                     (TodoWithCalculations.fields
                        (parseDependencies parse (or_null (dependencies todo)))
                        (Map_get es (id' todo))
                        (id' todo \<in> set path)))
                todos)"
    by blast
  then show ?thesis
    by (simp add: comp_def truncate_extend dependsOn_extend parseDependencies_or_null)
qed

theorem calculateSchedule_frame_witness:
  "calculateSchedule clockAdvancing parse_examples chain =
     Inr [\<lparr>id' = 2, title = ''task'', createdAt = 0, dueDate = None, imageUrl = None,
           dependencies = Some ''[1]'', duration = Some 3,
           dependsOn = [1], earliestStart = Some 1700007200000, isOnCriticalPath = True\<rparr>,
          \<lparr>id' = 1, title = ''task'', createdAt = 0, dueDate = None, imageUrl = None,
           dependencies = None, duration = Some 2,
           dependsOn = [], earliestStart = Some 1700000000000, isOnCriticalPath = True\<rparr>]
   \<and> map Todo.truncate
        [\<lparr>id' = 2, title = ''task'', createdAt = 0, dueDate = None, imageUrl = None,
           dependencies = Some ''[1]'', duration = Some 3,
           dependsOn = [1], earliestStart = Some 1700007200000, isOnCriticalPath = True\<rparr>,
          \<lparr>id' = 1, title = ''task'', createdAt = 0, dueDate = None, imageUrl = None,
           dependencies = None, duration = Some 2,
           dependsOn = [], earliestStart = Some 1700000000000, isOnCriticalPath = True\<rparr>] = chain"
proof -
  have "calculateSchedule clockAdvancing parse_examples chain =
     Inr [\<lparr>id' = 2, title = ''task'', createdAt = 0, dueDate = None, imageUrl = None,
           dependencies = Some ''[1]'', duration = Some 3,
           dependsOn = [1], earliestStart = Some 1700007200000, isOnCriticalPath = True\<rparr>,
          \<lparr>id' = 1, title = ''task'', createdAt = 0, dueDate = None, imageUrl = None,
           dependencies = None, duration = Some 2,
           dependsOn = [], earliestStart = Some 1700000000000, isOnCriticalPath = True\<rparr>]"
    unfolding calculateSchedule_def scheduleTimes_def chain_sort
    by (simp add: todoMap_of_def findCriticalPath_def findEndTask_def duration_or_1_def
        clockAdvancing_def chain_def task_def parseDependencies_def or_null_def parse_examples_def
        Todo.defs TodoWithCalculations.defs)
  with calculateSchedule_frame[of clockAdvancing parse_examples chain] show ?thesis
    by auto
qed

lemma finite_completions: "finite {c. \<exists>d\<in>set deps. Map_get ct d = Some c}"
proof -
  have "{c. \<exists>d\<in>set deps. Map_get ct d = Some c} \<subseteq> the ` Map_get ct ` set deps" by force
  then show ?thesis by (meson finite_imageI finite_set finite_subset)
qed

lemma scheduleTimes_at:
  assumes st: "scheduleTimes clock parse todos = Inr (n, es, ct)"
    and dist: "distinct (map id' todos)"
    and todo: "todo \<in> set todos"
    and j: "j < length (topologicalSort parse todos)" "topologicalSort parse todos ! j = id' todo"
  shows "Map_get es (id' todo)
           = Some (Max (insert (clock j)
                {c. \<exists>d\<in>set (existingDeps parse todos todo). Map_get ct d = Some c}))"
    and "\<forall>d\<in>set (existingDeps parse todos todo). Map_get ct d \<noteq> None"
    and "Map_get ct (id' todo)
           = Some (Max (insert (clock j)
                {c. \<exists>d\<in>set (existingDeps parse todos todo). Map_get ct d = Some c})
                   + duration_or_1 (duration todo) * 60 * 60 * 1000)"
proof -
  let ?s = "topologicalSort parse todos"
  let ?deps = "parseDependencies parse (or_null (dependencies todo))"
  from st have loop: "scheduleLoop clock parse (todoMap_of todos) ?s (0, [], []) = Inr (n, es, ct)"
    by (simp add: scheduleTimes_def)
  from scheduleLoop_at[OF loop topologicalSort_distinct j(1)] obtain todo' cj where
    t: "Map_get (todoMap_of todos) (?s ! j) = Some todo'"
    and e: "Map_get es (?s ! j)
              = Some (maxCompletion cj (parseDependencies parse (or_null (dependencies todo'))) (clock (0 + j)))"
    and c: "Map_get ct (?s ! j)
              = Some (maxCompletion cj (parseDependencies parse (or_null (dependencies todo'))) (clock (0 + j))
                      + duration_or_1 (duration todo') * 60 * 60 * 1000)"
    and v: "\<forall>d. Map_get cj d = (if d \<in> set (take j ?s) then Map_get ct d else Map_get [] d)"
    by (elim exE conjE)
  from todoMap_of_distinct[OF dist todo] t j(2) have same: "todo' = todo" by simp
  have dec: "?s = take j ?s @ id' todo # drop (Suc j) ?s"
    using j by (metis id_take_nth_drop)
  have before: "d \<in> set (take j ?s)" if "d \<in> set (existingDeps parse todos todo)" for d
  proof -
    from that todo have "(d, id' todo) \<in> dependencyEdges parse todos"
      by (auto simp: dependencyEdges_def)
    from topologicalSort_before[OF this dec] show ?thesis .
  qed
  have keys: "fst ` set ct = set ?s" using scheduleTimes_keys[OF st] by simp
  show all: "\<forall>d\<in>set (existingDeps parse todos todo). Map_get ct d \<noteq> None"
  proof
    fix d assume "d \<in> set (existingDeps parse todos todo)"
    then have "d \<in> set ?s" using before by (meson in_set_takeD)
    with keys show "Map_get ct d \<noteq> None" by (simp add: map_of_eq_None_iff)
  qed
  have sets: "{c. \<exists>d\<in>set ?deps. Map_get cj d = Some c}
      = {c. \<exists>d\<in>set (existingDeps parse todos todo). Map_get ct d = Some c}"
  proof (intro equalityI subsetI)
    fix c assume "c \<in> {c. \<exists>d\<in>set ?deps. Map_get cj d = Some c}"
    then obtain d where d: "d \<in> set ?deps" "Map_get cj d = Some c" by blast
    with v have dj: "d \<in> set (take j ?s)" and cd: "Map_get ct d = Some c"
      by (auto split: if_splits)
    from dj have "d \<in> set ?s" by (meson in_set_takeD)
    then have "d \<in> set (map id' todos)" using topologicalSort_ids[of parse todos] by auto
    with d(1) have "d \<in> set (existingDeps parse todos todo)" by (simp add: existingDeps_def)
    with cd show "c \<in> {c. \<exists>d\<in>set (existingDeps parse todos todo). Map_get ct d = Some c}" by blast
  next
    fix c assume "c \<in> {c. \<exists>d\<in>set (existingDeps parse todos todo). Map_get ct d = Some c}"
    then obtain d where d: "d \<in> set (existingDeps parse todos todo)" "Map_get ct d = Some c" by blast
    from before[OF d(1)] v d(2) have "Map_get cj d = Some c" by simp
    moreover from d(1) have "d \<in> set ?deps" by (simp add: existingDeps_def)
    ultimately show "c \<in> {c. \<exists>d\<in>set ?deps. Map_get cj d = Some c}" by blast
  qed
  have mx: "maxCompletion cj ?deps (clock j)
      = Max (insert (clock j) {c. \<exists>d\<in>set (existingDeps parse todos todo). Map_get ct d = Some c})"
    by (simp only: maxCompletion_Max sets)
  from e same j(2) mx show "Map_get es (id' todo)
           = Some (Max (insert (clock j)
                {c. \<exists>d\<in>set (existingDeps parse todos todo). Map_get ct d = Some c}))"
    by simp
  from c same j(2) mx show "Map_get ct (id' todo)
           = Some (Max (insert (clock j)
                {c. \<exists>d\<in>set (existingDeps parse todos todo). Map_get ct d = Some c})
                   + duration_or_1 (duration todo) * 60 * 60 * 1000)"
    by simp
qed

lemma calculateSchedule_earliestStart:
  assumes "scheduleTimes clock parse todos = Inr (n, es, ct)" and "i < length todos"
  shows "\<exists>res. calculateSchedule clock parse todos = Inr res
     \<and> earliestStart (res ! i) = Map_get es (id' (todos ! i))"
proof -
  from calculateSchedule_total[of clock parse todos] assms(1) obtain path where
    "calculateSchedule clock parse todos =
         Inr (map (\<lambda>todo. Todo.extend todo
                     (TodoWithCalculations.fields
                        (parseDependencies parse (or_null (dependencies todo)))
                        (Map_get es (id' todo))
                        (id' todo \<in> set path)))
                todos)"
    by auto
  with assms(2) show ?thesis by (simp add: earliestStart_extend)
qed

lemma in_sort_index:
  assumes "t \<in> set (topologicalSort parse todos)"
  shows "\<exists>j. j < length todos \<and> j < length (topologicalSort parse todos)
     \<and> topologicalSort parse todos ! j = t"
proof -
  let ?s = "topologicalSort parse todos"
  from assms obtain j where j: "j < length ?s" "?s ! j = t" by (auto simp: in_set_conv_nth)
  have "length ?s = card (set ?s)" using topologicalSort_distinct[of parse todos] by (simp add: distinct_card)
  also have "\<dots> \<le> card (id' ` set todos)" using topologicalSort_ids[of parse todos] by (simp add: card_mono)
  also have "\<dots> \<le> length todos" by (metis card_image_le card_length finite_set le_trans)
  finally have "j < length todos" using j(1) by simp
  with j show ?thesis by blast
qed

lemma completionTimes_eq:
  "scheduleTimes clock parse todos = Inr (n, es, ct) \<Longrightarrow> completionTimes clock parse todos = ct"
  by (simp add: completionTimes_def)

text \<open>
  Claim C3, as the code has it. In an acyclic collection with distinct identifiers whose
  time values stay in the range of \<^verbatim>\<open>Date\<close>, every task has an earliest start, and its
  completion timestamp is that start plus its duration (1 hour when absent or \<open>0\<close>) in
  milliseconds. A task with at least one dependency present in the collection gets as
  earliest start the later of the clock reading taken when the task is processed and the
  maximum completion timestamp of its present dependencies, all of which have a
  completion timestamp. The task at position \<open>j\<close> of the topological order is processed
  with the \<open>j\<close>-th reading.
\<close>

theorem calculateSchedule_earliestStart_max:
  assumes "acyclic (dependencyEdges parse todos)" and "distinct (map id' todos)"
    and "i < length todos" and "existingDeps parse todos (todos ! i) \<noteq> []"
    and "timesInRange clock parse todos"
  shows "\<exists>res j. calculateSchedule clock parse todos = Inr res
     \<and> j < length todos \<and> topologicalSort parse todos ! j = id' (todos ! i)
     \<and> (\<forall>k<length todos. \<exists>start. earliestStart (res ! k) = Some start
            \<and> Map_get (completionTimes clock parse todos) (id' (todos ! k))
                = Some (start + duration_or_1 (duration (todos ! k)) * 3600000))
     \<and> (\<forall>d\<in>set (existingDeps parse todos (todos ! i)).
            Map_get (completionTimes clock parse todos) d \<noteq> None)
     \<and> earliestStart (res ! i)
         = Some (max (clock j)
                  (Max {c. \<exists>d\<in>set (existingDeps parse todos (todos ! i)).
                             Map_get (completionTimes clock parse todos) d = Some c}))"
proof -
  let ?todo = "todos ! i"
  let ?s = "topologicalSort parse todos"
  from calculateSchedule_total[of clock parse todos] obtain es ct path where
    st: "scheduleTimes clock parse todos = Inr (length ?s, es, ct)"
    and res: "calculateSchedule clock parse todos =
         Inr (map (\<lambda>todo. Todo.extend todo
                     (TodoWithCalculations.fields
                        (parseDependencies parse (or_null (dependencies todo)))
                        (Map_get es (id' todo))
                        (id' todo \<in> set path)))
                todos)"
    by blast
  define res' where "res' = map (\<lambda>todo. Todo.extend todo
                     (TodoWithCalculations.fields
                        (parseDependencies parse (or_null (dependencies todo)))
                        (Map_get es (id' todo))
                        (id' todo \<in> set path)))
                todos"
  have r: "calculateSchedule clock parse todos = Inr res'" using res by (simp add: res'_def)
  have es: "earliestStart (res' ! k) = Map_get es (id' (todos ! k))" if "k < length todos" for k
    using that by (simp add: res'_def earliestStart_extend)
  have ct: "completionTimes clock parse todos = ct" by (rule completionTimes_eq[OF st])
  have sset: "set ?s = set (map id' todos)"
    using acyclic_no_cycle[OF assms(1)] by (simp add: topologicalSort_set)
  have pos: "\<exists>j. j < length todos \<and> j < length ?s \<and> ?s ! j = id' (todos ! k)"
    if "k < length todos" for k
  proof -
    from that sset have "id' (todos ! k) \<in> set ?s" by simp
    from in_sort_index[OF this] show ?thesis .
  qed
  have pin: "\<forall>k<length todos. \<exists>start. earliestStart (res' ! k) = Some start
            \<and> Map_get ct (id' (todos ! k))
                = Some (start + duration_or_1 (duration (todos ! k)) * 3600000)"
  proof (intro allI impI)
    fix k assume k: "k < length todos"
    from pos[OF k] obtain j where j: "j < length ?s" "?s ! j = id' (todos ! k)" by blast
    from k have "todos ! k \<in> set todos" by simp
    note at = scheduleTimes_at[OF st assms(2) this j]
    from at(1) at(3) es[OF k]
    show "\<exists>start. earliestStart (res' ! k) = Some start
            \<and> Map_get ct (id' (todos ! k))
                = Some (start + duration_or_1 (duration (todos ! k)) * 3600000)"
      by simp
  qed
  from assms(3) have todo: "?todo \<in> set todos" by simp
  from pos[OF assms(3)] obtain j where
    j: "j < length todos" "j < length ?s" "?s ! j = id' ?todo"
    by blast
  note at = scheduleTimes_at[OF st assms(2) todo j(2,3)]
  from assms(4) obtain d where d: "d \<in> set (existingDeps parse todos ?todo)"
    by (cases "existingDeps parse todos ?todo") auto
  with at(2) obtain c where "Map_get ct d = Some c" by auto
  with d have ne: "{c. \<exists>d\<in>set (existingDeps parse todos ?todo). Map_get ct d = Some c} \<noteq> {}"
    by blast
  have "Max (insert (clock j) {c. \<exists>d\<in>set (existingDeps parse todos ?todo). Map_get ct d = Some c})
      = max (clock j) (Max {c. \<exists>d\<in>set (existingDeps parse todos ?todo). Map_get ct d = Some c})"
    using finite_completions ne by (rule Max_insert)
  with at(1) es[OF assms(3)] have mx: "earliestStart (res' ! i)
      = Some (max (clock j) (Max {c. \<exists>d\<in>set (existingDeps parse todos ?todo). Map_get ct d = Some c}))"
    by simp
  from r j(1,3) pin at(2) mx show ?thesis
    unfolding ct by (intro exI[of _ res'] exI[of _ j] conjI) assumption+
qed

lemma acyclic_empty_edges: "acyclic ({} :: (number \<times> number) set)"
  by (simp add: acyclic_def)

lemma chain_schedule:
  "scheduleTimes clockAdvancing parse_examples chain
     = Inr (2, [(1, 1700000000000), (2, 1700007200000)], [(1, 1700007200000), (2, 1700018000000)])"
  unfolding scheduleTimes_def chain_sort
  by (simp add: todoMap_of_def duration_or_1_def clockAdvancing_def chain_def task_def
      parseDependencies_def or_null_def parse_examples_def)

lemma chain_existingDeps: "existingDeps parse_examples chain (chain ! 0) = [1]"
  by (simp add: existingDeps_def chain_def task_def parseDependencies_def or_null_def
      parse_examples_def)

lemma chain_result:
  "calculateSchedule clockAdvancing parse_examples chain =
     Inr [\<lparr>id' = 2, title = ''task'', createdAt = 0, dueDate = None, imageUrl = None,
           dependencies = Some ''[1]'', duration = Some 3,
           dependsOn = [1], earliestStart = Some 1700007200000, isOnCriticalPath = True\<rparr>,
          \<lparr>id' = 1, title = ''task'', createdAt = 0, dueDate = None, imageUrl = None,
           dependencies = None, duration = Some 2,
           dependsOn = [], earliestStart = Some 1700000000000, isOnCriticalPath = True\<rparr>]"
  unfolding calculateSchedule_def chain_schedule
  by (simp add: findCriticalPath_def findEndTask_def chain_def task_def
      parseDependencies_def or_null_def parse_examples_def Todo.defs TodoWithCalculations.defs)

theorem calculateSchedule_earliestStart_max_witness:
  "acyclic (dependencyEdges parse_examples chain) \<and> distinct (map id' chain)
     \<and> 0 < length chain \<and> existingDeps parse_examples chain (chain ! 0) = [1]
     \<and> timesInRange clockAdvancing parse_examples chain
     \<and> completionTimes clockAdvancing parse_examples chain
         = [(1, 1700007200000), (2, 1700018000000)]
     \<and> calculateSchedule clockAdvancing parse_examples chain =
         Inr [\<lparr>id' = 2, title = ''task'', createdAt = 0, dueDate = None, imageUrl = None,
               dependencies = Some ''[1]'', duration = Some 3,
               dependsOn = [1], earliestStart = Some 1700007200000, isOnCriticalPath = True\<rparr>,
              \<lparr>id' = 1, title = ''task'', createdAt = 0, dueDate = None, imageUrl = None,
               dependencies = None, duration = Some 2,
               dependsOn = [], earliestStart = Some 1700000000000, isOnCriticalPath = True\<rparr>]
     \<and> (\<exists>res j. calculateSchedule clockAdvancing parse_examples chain = Inr res
     \<and> j < length chain \<and> topologicalSort parse_examples chain ! j = id' (chain ! 0)
     \<and> (\<forall>k<length chain. \<exists>start. earliestStart (res ! k) = Some start
            \<and> Map_get (completionTimes clockAdvancing parse_examples chain) (id' (chain ! k))
                = Some (start + duration_or_1 (duration (chain ! k)) * 3600000))
     \<and> (\<forall>d\<in>set (existingDeps parse_examples chain (chain ! 0)).
            Map_get (completionTimes clockAdvancing parse_examples chain) d \<noteq> None)
     \<and> earliestStart (res ! 0)
         = Some (max (clockAdvancing j)
                  (Max {c. \<exists>d\<in>set (existingDeps parse_examples chain (chain ! 0)).
                             Map_get (completionTimes clockAdvancing parse_examples chain) d = Some c})))"
proof -
  have a: "acyclic (dependencyEdges parse_examples chain)"
    by (simp add: chain_edges acyclic_insert acyclic_empty_edges)
  have b: "distinct (map id' chain)" by (simp add: chain_def task_def)
  have c: "0 < length chain" by (simp add: chain_def)
  have d: "existingDeps parse_examples chain (chain ! 0) \<noteq> []" by (simp add: chain_existingDeps)
  have e: "timesInRange clockAdvancing parse_examples chain"
    by (simp add: timesInRange_def chain_schedule validTime_def clockAdvancing_def list_all_iff)
  have f: "completionTimes clockAdvancing parse_examples chain
         = [(1, 1700007200000), (2, 1700018000000)]"
    by (simp add: completionTimes_def chain_schedule)
  note t = calculateSchedule_earliestStart_max[OF a b c d e]
  from t a b c chain_existingDeps e f chain_result show ?thesis
    by (intro conjI) assumption+
qed

lemma negativeDuration_sort: "topologicalSort parse_examples negativeDuration = [1, 2]"
  by (simp add: topologicalSort_def buildEdges_def initialize_def addEdge_def Map_has_def
      negativeDuration_def task_def parseDependencies_def or_null_def parse_examples_def)

lemma negativeDuration_edges: "dependencyEdges parse_examples negativeDuration = {(1, 2)}"
  by (simp add: dependencyEdges_def existingDeps_def negativeDuration_def task_def
      parseDependencies_def or_null_def parse_examples_def)

lemma negativeDuration_schedule:
  "scheduleTimes clockFrozen parse_examples negativeDuration
     = Inr (2, [(1, 1700000000000), (2, 1700000000000)], [(1, 1699982000000), (2, 1700003600000)])"
  unfolding scheduleTimes_def negativeDuration_sort
  by (simp add: todoMap_of_def duration_or_1_def clockFrozen_def negativeDuration_def task_def
      parseDependencies_def or_null_def parse_examples_def)

text \<open>
  Claim C3, as stated, fails. Task \<open>1\<close> has the duration \<open>-5\<close> hours and completes before
  the clock reading; task \<open>2\<close> depends on it and starts at the clock reading
  \<open>1700000000000\<close>, not at the completion timestamp \<open>1699982000000\<close> of task \<open>1\<close>.
\<close>

theorem calculateSchedule_earliestStart_not_completion:
  "acyclic (dependencyEdges parse_examples negativeDuration)
     \<and> distinct (map id' negativeDuration)
     \<and> timesInRange clockFrozen parse_examples negativeDuration
     \<and> existingDeps parse_examples negativeDuration (negativeDuration ! 1) = [1]
     \<and> scheduleTimes clockFrozen parse_examples negativeDuration
         = Inr (2, [(1, 1700000000000), (2, 1700000000000)],
                   [(1, 1699982000000), (2, 1700003600000)])
     \<and> calculateSchedule clockFrozen parse_examples negativeDuration =
         Inr [\<lparr>id' = 1, title = ''task'', createdAt = 0, dueDate = None, imageUrl = None,
               dependencies = None, duration = Some (- 5),
               dependsOn = [], earliestStart = Some 1700000000000, isOnCriticalPath = False\<rparr>,
              \<lparr>id' = 2, title = ''task'', createdAt = 0, dueDate = None, imageUrl = None,
               dependencies = Some ''[1]'', duration = None,
               dependsOn = [1], earliestStart = Some 1700000000000, isOnCriticalPath = True\<rparr>]"
proof -
  have a: "acyclic (dependencyEdges parse_examples negativeDuration)"
    by (simp add: negativeDuration_edges acyclic_insert acyclic_empty_edges)
  have b: "existingDeps parse_examples negativeDuration (negativeDuration ! 1) = [1]"
    by (simp add: existingDeps_def negativeDuration_def task_def parseDependencies_def or_null_def
        parse_examples_def)
  have c: "calculateSchedule clockFrozen parse_examples negativeDuration =
         Inr [\<lparr>id' = 1, title = ''task'', createdAt = 0, dueDate = None, imageUrl = None,
               dependencies = None, duration = Some (- 5),
               dependsOn = [], earliestStart = Some 1700000000000, isOnCriticalPath = False\<rparr>,
              \<lparr>id' = 2, title = ''task'', createdAt = 0, dueDate = None, imageUrl = None,
               dependencies = Some ''[1]'', duration = None,
               dependsOn = [1], earliestStart = Some 1700000000000, isOnCriticalPath = True\<rparr>]"
    unfolding calculateSchedule_def negativeDuration_schedule
    by (simp add: findCriticalPath_def findEndTask_def negativeDuration_def task_def
        parseDependencies_def or_null_def parse_examples_def Todo.defs TodoWithCalculations.defs)
  have d: "distinct (map id' negativeDuration)" by (simp add: negativeDuration_def task_def)
  have e: "timesInRange clockFrozen parse_examples negativeDuration"
    by (simp add: timesInRange_def negativeDuration_schedule validTime_def clockFrozen_def
        list_all_iff)
  from a b c d e negativeDuration_schedule show ?thesis by simp
qed

lemma free_task_sorted:
  assumes "distinct (map id' todos)" and "todo \<in> set todos"
    and "existingDeps parse todos todo = []"
  shows "id' todo \<in> set (topologicalSort parse todos)"
proof -
  have "\<not> (d, id' todo) \<in> dependencyEdges parse todos" for d
  proof
    assume "(d, id' todo) \<in> dependencyEdges parse todos"
    then obtain todo' where t: "todo' \<in> set todos" "id' todo' = id' todo"
      "d \<in> set (existingDeps parse todos todo')"
      by (auto simp: dependencyEdges_def)
    from assms(1,2) t(1,2) have "todo' = todo" by (meson distinct_map inj_onD)
    with t(3) assms(3) show False by simp
  qed
  moreover from assms(2) have "id' todo \<in> id' ` set todos" by simp
  ultimately show ?thesis using topologicalSort_closed[of "id' todo" todos parse] by simp
qed

text \<open>
  Claim C4, as the code has it. The clock is read once for every task processed, in the
  topological order: a task with no dependency present in the collection gets as earliest
  start the reading taken when it is processed, which is the \<open>j\<close>-th reading of the
  invocation for the task at position \<open>j\<close> of the topological order.
\<close>

theorem calculateSchedule_earliestStart_free:
  assumes "distinct (map id' todos)" and "i < length todos"
    and "existingDeps parse todos (todos ! i) = []"
  shows "\<exists>res j. calculateSchedule clock parse todos = Inr res
     \<and> j < length todos \<and> j < length (topologicalSort parse todos)
     \<and> topologicalSort parse todos ! j = id' (todos ! i)
     \<and> earliestStart (res ! i) = Some (clock j)"
proof -
  let ?todo = "todos ! i"
  from scheduleTimes_total[of clock parse todos] obtain es ct where
    st: "scheduleTimes clock parse todos = Inr (length (topologicalSort parse todos), es, ct)"
    by blast
  from assms(2) have todo: "?todo \<in> set todos" by simp
  from free_task_sorted[OF assms(1) todo assms(3)]
  have "id' ?todo \<in> set (topologicalSort parse todos)" .
  from in_sort_index[OF this] obtain j where
    j: "j < length todos" "j < length (topologicalSort parse todos)"
      "topologicalSort parse todos ! j = id' ?todo"
    by blast
  from scheduleTimes_at(1)[OF st assms(1) todo j(2,3)] assms(3)
  have es: "Map_get es (id' ?todo) = Some (clock j)" by simp
  from calculateSchedule_earliestStart[OF st assms(2)] obtain res where
    "calculateSchedule clock parse todos = Inr res"
    "earliestStart (res ! i) = Map_get es (id' ?todo)"
    by blast
  with j es show ?thesis by auto
qed

lemma twoFree_sort: "topologicalSort parse_examples twoFree = [1, 2]"
  by (simp add: topologicalSort_def buildEdges_def initialize_def addEdge_def Map_has_def
      twoFree_def task_def parseDependencies_def or_null_def parse_examples_def)

lemma twoFree_schedule:
  "scheduleTimes clockAdvancing parse_examples twoFree
     = Inr (2, [(1, 1700000000000), (2, 1700000000001)], [(1, 1700003600000), (2, 1700003600001)])"
  unfolding scheduleTimes_def twoFree_sort
  by (simp add: todoMap_of_def duration_or_1_def clockAdvancing_def twoFree_def task_def
      parseDependencies_def or_null_def parse_examples_def)

lemma twoFree_result:
  "calculateSchedule clockAdvancing parse_examples twoFree =
     Inr [\<lparr>id' = 1, title = ''task'', createdAt = 0, dueDate = None, imageUrl = None,
           dependencies = None, duration = None,
           dependsOn = [], earliestStart = Some 1700000000000, isOnCriticalPath = False\<rparr>,
          \<lparr>id' = 2, title = ''task'', createdAt = 0, dueDate = None, imageUrl = None,
           dependencies = None, duration = None,
           dependsOn = [], earliestStart = Some 1700000000001, isOnCriticalPath = True\<rparr>]"
  unfolding calculateSchedule_def twoFree_schedule
  by (simp add: findCriticalPath_def findEndTask_def twoFree_def task_def
      parseDependencies_def or_null_def parse_examples_def Todo.defs TodoWithCalculations.defs)

theorem calculateSchedule_earliestStart_free_witness:
  "distinct (map id' twoFree) \<and> 1 < length twoFree
     \<and> existingDeps parse_examples twoFree (twoFree ! 1) = []
     \<and> clockAdvancing 1 = 1700000000001
     \<and> (\<exists>res j. calculateSchedule clockAdvancing parse_examples twoFree = Inr res
     \<and> j < length twoFree \<and> j < length (topologicalSort parse_examples twoFree)
     \<and> topologicalSort parse_examples twoFree ! j = id' (twoFree ! 1)
     \<and> earliestStart (res ! 1) = Some (clockAdvancing j))"
proof -
  have a: "distinct (map id' twoFree)" by (simp add: twoFree_def task_def)
  have b: "1 < length twoFree" by (simp add: twoFree_def)
  have c: "existingDeps parse_examples twoFree (twoFree ! 1) = []"
    by (simp add: existingDeps_def twoFree_def task_def parseDependencies_def or_null_def)
  have d: "clockAdvancing 1 = 1700000000001" by (simp add: clockAdvancing_def)
  from calculateSchedule_earliestStart_free[OF a b c, of clockAdvancing] a b c d
  show ?thesis by blast
qed

text \<open>
  Claim C4, as stated, fails. Two tasks without dependencies, with a clock that advances
  by one millisecond between two readings: the earliest starts are \<open>1700000000000\<close> and
  \<open>1700000000001\<close>, two readings of the clock and not one.
\<close>

theorem calculateSchedule_samples_per_task:
  "existingDeps parse_examples twoFree (twoFree ! 0) = []
     \<and> existingDeps parse_examples twoFree (twoFree ! 1) = []
     \<and> calculateSchedule clockAdvancing parse_examples twoFree =
     Inr [\<lparr>id' = 1, title = ''task'', createdAt = 0, dueDate = None, imageUrl = None,
           dependencies = None, duration = None,
           dependsOn = [], earliestStart = Some 1700000000000, isOnCriticalPath = False\<rparr>,
          \<lparr>id' = 2, title = ''task'', createdAt = 0, dueDate = None, imageUrl = None,
           dependencies = None, duration = None,
           dependsOn = [], earliestStart = Some 1700000000001, isOnCriticalPath = True\<rparr>]"
  using twoFree_result
  by (simp add: existingDeps_def twoFree_def task_def parseDependencies_def or_null_def)

lemma maxCompletion_empty: "maxCompletion [] deps mx = mx"
  by (induction deps) auto

lemma duration_or_1_nonneg: "(\<forall>h. d = Some h \<longrightarrow> 0 \<le> h) \<Longrightarrow> 1 \<le> duration_or_1 d"
  by (cases d) (auto simp: duration_or_1_def)

lemma first_completion_positive:
  assumes st: "scheduleTimes clock parse todos = Inr (n, es, ct)"
    and ne: "topologicalSort parse todos \<noteq> []"
    and clk: "0 < clock 0"
    and dur: "\<forall>todo\<in>set todos. \<forall>h. duration todo = Some h \<longrightarrow> 0 \<le> h"
  shows "\<exists>x\<in>set ct. 0 < snd x"
proof -
  let ?s = "topologicalSort parse todos"
  from st have loop: "scheduleLoop clock parse (todoMap_of todos) ?s (0, [], []) = Inr (n, es, ct)"
    by (simp add: scheduleTimes_def)
  from ne have "0 < length ?s" by simp
  from scheduleLoop_at[OF loop topologicalSort_distinct this] obtain todo cj where
    t: "Map_get (todoMap_of todos) (?s ! 0) = Some todo"
    and c: "Map_get ct (?s ! 0)
              = Some (maxCompletion cj (parseDependencies parse (or_null (dependencies todo))) (clock (0 + 0))
                      + duration_or_1 (duration todo) * 60 * 60 * 1000)"
    and v: "\<forall>d. Map_get cj d = (if d \<in> set (take 0 ?s) then Map_get ct d else Map_get [] d)"
    by (elim exE conjE)
  from v have "\<forall>d\<in>set (parseDependencies parse (or_null (dependencies todo))). Map_get cj d = Map_get [] d"
    by simp
  from maxCompletion_cong[OF this]
  have "maxCompletion cj (parseDependencies parse (or_null (dependencies todo))) (clock 0) = clock 0"
    by (simp add: maxCompletion_empty)
  with c have c': "Map_get ct (?s ! 0) = Some (clock 0 + duration_or_1 (duration todo) * 60 * 60 * 1000)"
    by simp
  from todoMap_of_member[OF t] dur have "1 \<le> duration_or_1 (duration todo)"
    by (intro duration_or_1_nonneg) blast
  with clk have "0 < clock 0 + duration_or_1 (duration todo) * 60 * 60 * 1000" by simp
  moreover from c' have "(?s ! 0, clock 0 + duration_or_1 (duration todo) * 60 * 60 * 1000) \<in> set ct"
    by (rule map_of_SomeD)
  ultimately show ?thesis by force
qed

lemma topologicalSort_nonempty_iff:
  "(topologicalSort parse todos \<noteq> [])
     = (\<exists>t\<in>set (map id' todos). \<forall>d. (d, t) \<notin> dependencyEdges parse todos)"
proof
  assume "topologicalSort parse todos \<noteq> []"
  then obtain t rest where s: "topologicalSort parse todos = [] @ t # rest"
    by (cases "topologicalSort parse todos") auto
  then have "t \<in> set (topologicalSort parse todos)" by simp
  with topologicalSort_ids[of parse todos] have tI: "t \<in> set (map id' todos)" by auto
  have "(d, t) \<notin> dependencyEdges parse todos" for d
  proof
    assume "(d, t) \<in> dependencyEdges parse todos"
    from topologicalSort_before[OF this s] show False by simp
  qed
  with tI show "\<exists>t\<in>set (map id' todos). \<forall>d. (d, t) \<notin> dependencyEdges parse todos" by blast
next
  assume "\<exists>t\<in>set (map id' todos). \<forall>d. (d, t) \<notin> dependencyEdges parse todos"
  then obtain t where t: "t \<in> id' ` set todos" "\<forall>d. (d, t) \<notin> dependencyEdges parse todos"
    by auto
  with topologicalSort_closed[OF t(1), of parse] have "t \<in> set (topologicalSort parse todos)"
    by simp
  then show "topologicalSort parse todos \<noteq> []" by auto
qed

lemma topologicalSort_nonempty_acyclic:
  assumes "acyclic (dependencyEdges parse todos)" and "todos \<noteq> []"
  shows "topologicalSort parse todos \<noteq> []"
proof -
  have "set (topologicalSort parse todos) = set (map id' todos)"
    using acyclic_no_cycle[OF assms(1)] by (simp add: topologicalSort_set)
  with assms(2) show ?thesis by (cases todos) auto
qed

text \<open>
  Claim C5, as the code has it. For a collection of which the topological order is not
  empty (some task identifier has no dependency present in the collection, as in every
  non-empty acyclic collection), in which no task has the identifier \<open>-1\<close> and no
  duration is negative, with a first clock reading after the epoch and time values in the
  range of \<^verbatim>\<open>Date\<close>, \<^verbatim>\<open>calculateSchedule\<close> marks at least one task as on the critical
  path.
\<close>

theorem calculateSchedule_criticalPath_nonempty:
  assumes "topologicalSort parse todos \<noteq> []"
    and "- 1 \<notin> set (map id' todos)"
    and "\<forall>todo\<in>set todos. \<forall>h. duration todo = Some h \<longrightarrow> 0 \<le> h"
    and "0 < clock 0"
    and "timesInRange clock parse todos"
  shows "\<exists>res. calculateSchedule clock parse todos = Inr res \<and> (\<exists>r\<in>set res. isOnCriticalPath r)"
proof -
  let ?s = "topologicalSort parse todos"
  from calculateSchedule_total[of clock parse todos] obtain es ct path where
    st: "scheduleTimes clock parse todos = Inr (length ?s, es, ct)"
    and fp: "findCriticalPath parse todos es ct = Inr path"
    and res: "calculateSchedule clock parse todos =
         Inr (map (\<lambda>todo. Todo.extend todo
                     (TodoWithCalculations.fields
                        (parseDependencies parse (or_null (dependencies todo)))
                        (Map_get es (id' todo))
                        (id' todo \<in> set path)))
                todos)"
    by blast
  obtain l e where f: "findEndTask ct = (l, e)" by (cases "findEndTask ct")
  from first_completion_positive[OF st assms(1) assms(4) assms(3)] have "\<exists>x\<in>set ct. 0 < snd x" .
  from findEndTask_positive[OF f this] have "e \<in> fst ` set ct" .
  with scheduleTimes_keys(2)[OF st] topologicalSort_ids[of parse todos]
  have eI: "e \<in> set (map id' todos)" by auto
  with assms(2) have "e \<noteq> - 1" by metis
  moreover from scheduleTimes_keys[OF st] have "fst ` set ct = fst ` set es" by simp
  from findCriticalPath_total[OF this, of parse todos] fp f
  have "e \<noteq> - 1 \<longrightarrow> e \<in> set path" by simp
  ultimately have ep: "e \<in> set path" by simp
  from eI obtain todo where todo: "todo \<in> set todos" "id' todo = e" by auto
  let ?r = "Todo.extend todo
                     (TodoWithCalculations.fields
                        (parseDependencies parse (or_null (dependencies todo)))
                        (Map_get es (id' todo))
                        (id' todo \<in> set path))"
  have "isOnCriticalPath ?r" using todo(2) ep by (simp add: isOnCriticalPath_extend)
  moreover have "?r \<in> set (map (\<lambda>todo. Todo.extend todo
                     (TodoWithCalculations.fields
                        (parseDependencies parse (or_null (dependencies todo)))
                        (Map_get es (id' todo))
                        (id' todo \<in> set path)))
                todos)"
    using todo(1) by (rule imageI[of todo "set todos", folded set_map])
  ultimately show ?thesis using res by blast
qed

lemma cycleAndFree_sort: "topologicalSort parse_examples cycleAndFree = [3]"
  by (simp add: topologicalSort_def buildEdges_def initialize_def addEdge_def Map_has_def
      cycleAndFree_def task_def parseDependencies_def or_null_def parse_examples_def)

lemma cycleAndFree_schedule:
  "scheduleTimes clockFrozen parse_examples cycleAndFree
     = Inr (1, [(3, 1700000000000)], [(3, 1700003600000)])"
  unfolding scheduleTimes_def cycleAndFree_sort
  by (simp add: todoMap_of_def duration_or_1_def clockFrozen_def cycleAndFree_def task_def
      parseDependencies_def or_null_def parse_examples_def)

lemma cycleAndFree_result:
  "calculateSchedule clockFrozen parse_examples cycleAndFree =
     Inr [\<lparr>id' = 1, title = ''task'', createdAt = 0, dueDate = None, imageUrl = None,
           dependencies = Some ''[2]'', duration = None,
           dependsOn = [2], earliestStart = None, isOnCriticalPath = False\<rparr>,
          \<lparr>id' = 2, title = ''task'', createdAt = 0, dueDate = None, imageUrl = None,
           dependencies = Some ''[1]'', duration = None,
           dependsOn = [1], earliestStart = None, isOnCriticalPath = False\<rparr>,
          \<lparr>id' = 3, title = ''task'', createdAt = 0, dueDate = None, imageUrl = None,
           dependencies = None, duration = None,
           dependsOn = [], earliestStart = Some 1700000000000, isOnCriticalPath = True\<rparr>]"
  unfolding calculateSchedule_def cycleAndFree_schedule
  by (simp add: findCriticalPath_def findEndTask_def cycleAndFree_def task_def
      parseDependencies_def or_null_def parse_examples_def Todo.defs TodoWithCalculations.defs)

theorem calculateSchedule_criticalPath_nonempty_witness:
  "topologicalSort parse_examples cycleAndFree = [3]
     \<and> - 1 \<notin> set (map id' cycleAndFree) \<and> 0 < clockFrozen 0
     \<and> timesInRange clockFrozen parse_examples cycleAndFree
     \<and> calculateSchedule clockFrozen parse_examples cycleAndFree =
     Inr [\<lparr>id' = 1, title = ''task'', createdAt = 0, dueDate = None, imageUrl = None,
           dependencies = Some ''[2]'', duration = None,
           dependsOn = [2], earliestStart = None, isOnCriticalPath = False\<rparr>,
          \<lparr>id' = 2, title = ''task'', createdAt = 0, dueDate = None, imageUrl = None,
           dependencies = Some ''[1]'', duration = None,
           dependsOn = [1], earliestStart = None, isOnCriticalPath = False\<rparr>,
          \<lparr>id' = 3, title = ''task'', createdAt = 0, dueDate = None, imageUrl = None,
           dependencies = None, duration = None,
           dependsOn = [], earliestStart = Some 1700000000000, isOnCriticalPath = True\<rparr>]
     \<and> (\<exists>res. calculateSchedule clockFrozen parse_examples cycleAndFree = Inr res
          \<and> (\<exists>r\<in>set res. isOnCriticalPath r))"
proof -
  have a: "topologicalSort parse_examples cycleAndFree \<noteq> []" by (simp add: cycleAndFree_sort)
  have c: "- 1 \<notin> set (map id' cycleAndFree)" by (simp add: cycleAndFree_def task_def)
  have d: "\<forall>todo\<in>set cycleAndFree. \<forall>h. duration todo = Some h \<longrightarrow> 0 \<le> h"
    by (simp add: cycleAndFree_def task_def)
  have e: "0 < clockFrozen 0" by (simp add: clockFrozen_def)
  have f: "timesInRange clockFrozen parse_examples cycleAndFree"
    by (simp add: timesInRange_def cycleAndFree_schedule validTime_def clockFrozen_def)
  from calculateSchedule_criticalPath_nonempty[of parse_examples cycleAndFree clockFrozen] a c d e f
  have "\<exists>res. calculateSchedule clockFrozen parse_examples cycleAndFree = Inr res
          \<and> (\<exists>r\<in>set res. isOnCriticalPath r)"
    by blast
  with cycleAndFree_sort c e f cycleAndFree_result show ?thesis by simp
qed

text \<open>
  A single task of 2400000000 hours completes beyond the range of \<^verbatim>\<open>Date\<close>: the
  integer time values do not describe that run, and \<open>timesInRange\<close> excludes it.
\<close>

lemma out_of_range_excluded:
  "\<not> timesInRange clockFrozen parse_examples [task 1 None (Some 2400000000)]"
  by (simp add: timesInRange_def scheduleTimes_def todoMap_of_def
      topologicalSort_def buildEdges_def initialize_def addEdge_def Map_has_def
      duration_or_1_def clockFrozen_def task_def parseDependencies_def or_null_def validTime_def)

text \<open>
  So does the chain of three tasks of 2147483647, 2147483647 and 1 hours: the second task
  completes at 15463582258400000 ms.
\<close>

lemma long_chain_excluded:
  "\<not> timesInRange clockFrozen parse_examples
       [task 1 None (Some 2147483647), task 2 (Some ''[1]'') (Some 2147483647),
        task 3 (Some ''[2]'') (Some 1)]"
  by (simp add: timesInRange_def scheduleTimes_def todoMap_of_def
      topologicalSort_def buildEdges_def initialize_def addEdge_def Map_has_def
      duration_or_1_def clockFrozen_def task_def parseDependencies_def or_null_def validTime_def
      parse_examples_def)

lemma mutualCycle_schedule:
  "scheduleTimes clockAdvancing parse_examples mutualCycle = Inr (0, [], [])"
proof -
  have "topologicalSort parse_examples mutualCycle = []"
    unfolding mutualCycle_def
    by (rule mutualCycle_sort) (simp_all add: parse_examples_def)
  then show ?thesis by (simp add: scheduleTimes_def)
qed

text \<open>
  Claim C5, as stated, fails. Two tasks that depend on each other are never processed,
  so no completion timestamp exists and no task is marked.
\<close>

theorem calculateSchedule_criticalPath_empty:
  "mutualCycle \<noteq> []
     \<and> topologicalSort parse_examples mutualCycle = []
     \<and> timesInRange clockAdvancing parse_examples mutualCycle
     \<and> calculateSchedule clockAdvancing parse_examples mutualCycle =
     Inr [\<lparr>id' = 1, title = ''task'', createdAt = 0, dueDate = None, imageUrl = None,
           dependencies = Some ''[2]'', duration = None,
           dependsOn = [2], earliestStart = None, isOnCriticalPath = False\<rparr>,
          \<lparr>id' = 2, title = ''task'', createdAt = 0, dueDate = None, imageUrl = None,
           dependencies = Some ''[1]'', duration = None,
           dependsOn = [1], earliestStart = None, isOnCriticalPath = False\<rparr>]"
proof -
  have "calculateSchedule clockAdvancing parse_examples mutualCycle =
     Inr [\<lparr>id' = 1, title = ''task'', createdAt = 0, dueDate = None, imageUrl = None,
           dependencies = Some ''[2]'', duration = None,
           dependsOn = [2], earliestStart = None, isOnCriticalPath = False\<rparr>,
          \<lparr>id' = 2, title = ''task'', createdAt = 0, dueDate = None, imageUrl = None,
           dependencies = Some ''[1]'', duration = None,
           dependsOn = [1], earliestStart = None, isOnCriticalPath = False\<rparr>]"
    unfolding calculateSchedule_def mutualCycle_schedule
    by (simp add: findCriticalPath_def findEndTask_def mutualCycle_def task_def
        parseDependencies_def or_null_def parse_examples_def Todo.defs TodoWithCalculations.defs)
  moreover have "topologicalSort parse_examples mutualCycle = []"
    unfolding mutualCycle_def
    by (rule mutualCycle_sort) (simp_all add: parse_examples_def)
  moreover have "timesInRange clockAdvancing parse_examples mutualCycle"
    by (simp add: timesInRange_def mutualCycle_schedule)
  moreover have "mutualCycle \<noteq> []" by (simp add: mutualCycle_def)
  ultimately show ?thesis by simp
qed

text \<open>
  The two sentinels of \<^verbatim>\<open>findCriticalPath\<close>: a single task that completes before the
  epoch, or at it, is not later than \<^verbatim>\<open>new Date(0)\<close>, and a task with the identifier
  \<open>-1\<close> is taken for "no end task"; in these cases no task is marked.
\<close>

lemma calculateSchedule_sentinels:
  "calculateSchedule clockFrozen parse_examples [task 1 None (Some (- 600000))] =
     Inr [\<lparr>id' = 1, title = ''task'', createdAt = 0, dueDate = None, imageUrl = None,
           dependencies = None, duration = Some (- 600000),
           dependsOn = [], earliestStart = Some 1700000000000, isOnCriticalPath = False\<rparr>]"
  "calculateSchedule clockFrozen parse_examples [task (- 1) None None] =
     Inr [\<lparr>id' = - 1, title = ''task'', createdAt = 0, dueDate = None, imageUrl = None,
           dependencies = None, duration = None,
           dependsOn = [], earliestStart = Some 1700000000000, isOnCriticalPath = False\<rparr>]"
  "calculateSchedule clockBeforeEpoch parse_examples [task 1 None None] =
     Inr [\<lparr>id' = 1, title = ''task'', createdAt = 0, dueDate = None, imageUrl = None,
           dependencies = None, duration = None,
           dependsOn = [], earliestStart = Some (- 3600000), isOnCriticalPath = False\<rparr>]"
  by (simp_all add: calculateSchedule_def scheduleTimes_def todoMap_of_def
      topologicalSort_def buildEdges_def initialize_def addEdge_def Map_has_def
      findCriticalPath_def findEndTask_def duration_or_1_def clockFrozen_def clockBeforeEpoch_def
      task_def parseDependencies_def or_null_def Todo.defs TodoWithCalculations.defs)

section \<open>The backward trace: results\<close>


lemma list_max_exists:
  fixes f :: "'a \<Rightarrow> int"
  shows "xs \<noteq> [] \<Longrightarrow> \<exists>m\<in>set xs. \<forall>x\<in>set xs. f x \<le> f m"
proof (induction xs)
  case Nil
  then show ?case by simp
next
  case (Cons a xs)
  show ?case
  proof (cases "xs = []")
    case True
    then show ?thesis by simp
  next
    case False
    from Cons.IH[OF this] obtain m where m: "m \<in> set xs" "\<forall>x\<in>set xs. f x \<le> f m" by blast
    show ?thesis
    proof (cases "f a \<le> f m")
      case True
      with m show ?thesis by auto
    next
      case False
      with m have "\<forall>x\<in>set (a # xs). f x \<le> f a" by auto
      then show ?thesis by auto
    qed
  qed
qed




text \<open>
  What the selection rule names: nothing exactly when no dependency is within the
  tolerance; otherwise a dependency within the tolerance whose completion timestamp is
  not exceeded by any other such dependency, and is strictly later than that of every
  such dependency that stands before it in the list.
\<close>

lemma spec_predecessor_None:
  "(spec_predecessor ct start deps = None) = (\<forall>dep\<in>set deps. \<not> withinTolerance ct start dep)"
proof
  assume n: "spec_predecessor ct start deps = None"
  show "\<forall>dep\<in>set deps. \<not> withinTolerance ct start dep"
  proof (rule ccontr)
    assume "\<not> (\<forall>dep\<in>set deps. \<not> withinTolerance ct start dep)"
    then have "filter (withinTolerance ct start) deps \<noteq> []"
      by (simp add: filter_empty_conv)
    from list_max_exists[OF this, of "completionOf ct"] obtain m where
      "m \<in> set (filter (withinTolerance ct start) deps)"
      "\<forall>x\<in>set (filter (withinTolerance ct start) deps). completionOf ct x \<le> completionOf ct m"
      by blast
    then have "spec_predecessor ct start deps \<noteq> None"
      unfolding spec_predecessor_def Let_def find_None_iff by blast
    with n show False by simp
  qed
next
  assume "\<forall>dep\<in>set deps. \<not> withinTolerance ct start dep"
  then have "filter (withinTolerance ct start) deps = []" by (simp add: filter_empty_conv)
  then show "spec_predecessor ct start deps = None" by (simp add: spec_predecessor_def)
qed

lemma find_first:
  "find P xs = Some x \<Longrightarrow> \<exists>ys zs. xs = ys @ x # zs \<and> P x \<and> (\<forall>y\<in>set ys. \<not> P y)"
proof (induction xs)
  case Nil
  then show ?case by simp
next
  case (Cons a xs)
  show ?case
  proof (cases "P a")
    case True
    with Cons.prems have "x = a" by simp
    with True have "a # xs = [] @ x # xs \<and> P x \<and> (\<forall>y\<in>set []. \<not> P y)" by simp
    then show ?thesis by blast
  next
    case False
    with Cons.prems have "find P xs = Some x" by simp
    from Cons.IH[OF this] obtain ys zs where "xs = ys @ x # zs" "P x" "\<forall>y\<in>set ys. \<not> P y" by blast
    with False have "a # xs = (a # ys) @ x # zs \<and> P x \<and> (\<forall>y\<in>set (a # ys). \<not> P y)" by simp
    then show ?thesis by blast
  qed
qed

lemma spec_predecessor_Some:
  assumes "spec_predecessor ct start deps = Some dep"
  shows "dep \<in> set deps \<and> withinTolerance ct start dep
     \<and> (\<forall>other\<in>set deps. withinTolerance ct start other
           \<longrightarrow> completionOf ct other \<le> completionOf ct dep)
     \<and> (\<exists>before after. filter (withinTolerance ct start) deps = before @ dep # after
           \<and> (\<forall>other\<in>set before. completionOf ct other < completionOf ct dep))"
proof -
  let ?Q = "filter (withinTolerance ct start) deps"
  let ?P = "\<lambda>d. \<forall>other\<in>set ?Q. completionOf ct other \<le> completionOf ct d"
  from assms have "find ?P ?Q = Some dep" by (simp add: spec_predecessor_def)
  from find_first[OF this] obtain ys zs where
    q: "?Q = ys @ dep # zs" and p: "?P dep" and f: "\<forall>y\<in>set ys. \<not> ?P y"
    by blast
  from q have "dep \<in> set ?Q" by simp
  then have 1: "dep \<in> set deps" "withinTolerance ct start dep" by simp_all
  from p have 2: "\<forall>other\<in>set deps. withinTolerance ct start other
           \<longrightarrow> completionOf ct other \<le> completionOf ct dep"
    by simp
  have 3: "\<forall>other\<in>set ys. completionOf ct other < completionOf ct dep"
  proof
    fix y assume y: "y \<in> set ys"
    with f obtain o' where o': "o' \<in> set ?Q" "\<not> completionOf ct o' \<le> completionOf ct y" by blast
    from p o'(1) have "completionOf ct o' \<le> completionOf ct dep" by blast
    with o'(2) show "completionOf ct y < completionOf ct dep" by simp
  qed
  from 1 2 3 q show ?thesis by blast
qed










lemma backToEpoch_sort: "topologicalSort parse_examples backToEpoch = [1, 2, 3]"
  by (simp add: topologicalSort_def buildEdges_def initialize_def addEdge_def Map_has_def
      backToEpoch_def task_def parseDependencies_def or_null_def parse_examples_def)

lemma backToEpoch_schedule:
  "scheduleTimes clockEpoch parse_examples backToEpoch
     = Inr (3, [(1, 0), (2, 3600000), (3, 0)], [(1, 3600000), (2, 0), (3, 7200000)])"
  unfolding scheduleTimes_def backToEpoch_sort
  by (simp add: todoMap_of_def duration_or_1_def clockEpoch_def backToEpoch_def task_def
      parseDependencies_def or_null_def parse_examples_def)

text \<open>
  The other sentinel of the trace, \<^verbatim>\<open>new Date(0)\<close>: with a clock that stands at the epoch,
  task \<open>2\<close> completes at the time value \<open>0\<close>, which is the earliest start of task \<open>3\<close>;
  the dependency is within the tolerance, but its completion is not later than
  \<^verbatim>\<open>new Date(0)\<close>, and the trace stops at task \<open>3\<close>.
\<close>

lemma tracePath_stops_at_epoch:
  "spec_predecessor [(1, 3600000), (2, 0), (3, 7200000)] 0 [2] = Some 2"
  "tracePath parse_examples backToEpoch
        [(1, 0), (2, 3600000), (3, 0)] [(1, 3600000), (2, 0), (3, 7200000)] 3 ({}, [])
      = Inr ({3}, [3])"
  by (simp_all add: spec_predecessor_def withinTolerance_def completionOf_def
      backToEpoch_def task_def parseDependencies_def or_null_def parse_examples_def)

end
